theory Spec2Isabelle
  imports Main "HOL-Library.Char_ord" "HOL-Library.List_Lexorder"
begin

section \<open>Strings\<close>

text \<open>
  Names, venues and titles are Python strings. They are modelled as \<open>string\<close>, one
  \<open>char\<close> per code point, which covers the code points below 256.

  \<open>is_space\<close> is \<^verbatim>\<open>str.isspace\<close> on one code point (what \<^verbatim>\<open>str.strip()\<close> removes) and
  \<open>lower_char\<close> is \<^verbatim>\<open>str.lower\<close> on one code point, both restricted to that range.
\<close>

definition is_space :: "char \<Rightarrow> bool" where
  "is_space c =
     (let n = (of_char c :: nat)
      in (9 \<le> n \<and> n \<le> 13) \<or> (28 \<le> n \<and> n \<le> 32) \<or> n = 133 \<or> n = 160)"

definition lower_char :: "char \<Rightarrow> char" where
  "lower_char c =
     (let n = (of_char c :: nat)
      in if (65 \<le> n \<and> n \<le> 90) \<or> (192 \<le> n \<and> n \<le> 222 \<and> n \<noteq> 215)
         then char_of (n + 32) else c)"

definition strip :: "string \<Rightarrow> string" where
  "strip s = rev (dropWhile is_space (rev (dropWhile is_space s)))"

definition lower :: "string \<Rightarrow> string" where
  "lower s = map lower_char s"

text \<open>\<^verbatim>\<open>def normalize_name(name): return name.strip().lower()\<close>\<close>

definition normalize_name :: "string \<Rightarrow> string" where
  "normalize_name name = lower (strip name)"

text \<open>
  \<^verbatim>\<open>needle in hay\<close> on strings is the substring test. \<open>occurrences\<close> counts the
  positions of \<open>hay\<close> at which \<open>needle\<close> starts.
\<close>

fun starts_with :: "'a list \<Rightarrow> 'a list \<Rightarrow> bool" where
  "starts_with [] hay = True"
| "starts_with (x # xs) [] = False"
| "starts_with (x # xs) (y # ys) = (x = y \<and> starts_with xs ys)"

fun str_in :: "'a list \<Rightarrow> 'a list \<Rightarrow> bool" where
  "str_in needle [] = (needle = [])"
| "str_in needle (y # ys) = (starts_with needle (y # ys) \<or> str_in needle ys)"

fun occurrences :: "'a list \<Rightarrow> 'a list \<Rightarrow> nat" where
  "occurrences needle [] = (if needle = [] then 1 else 0)"
| "occurrences needle (y # ys) =
     (if starts_with needle (y # ys) then 1 else 0) + occurrences needle ys"

section \<open>Dictionaries with insertion order\<close>

text \<open>
  A Python dict keeps its keys in insertion order, and the program iterates over dicts.
  A dict is an association list with distinct keys: an update of a present key keeps its
  position, a new key goes to the end.
\<close>

definition has_key :: "('k \<times> 'v) list \<Rightarrow> 'k \<Rightarrow> bool" where
  "has_key m k = (k \<in> set (map fst m))"

definition modify :: "'k \<Rightarrow> ('v \<Rightarrow> 'v) \<Rightarrow> ('k \<times> 'v) list \<Rightarrow> ('k \<times> 'v) list" where
  "modify k f m = map (\<lambda>(k', v). if k' = k then (k', f v) else (k', v)) m"

text \<open>
  \<open>setdefault_then k d f m\<close> is \<^verbatim>\<open>m.setdefault(k, d)\<close> followed by the in-place change
  \<open>f\<close> of the value found or inserted.
\<close>

definition setdefault_then ::
  "'k \<Rightarrow> 'v \<Rightarrow> ('v \<Rightarrow> 'v) \<Rightarrow> ('k \<times> 'v) list \<Rightarrow> ('k \<times> 'v) list" where
  "setdefault_then k d f m = (if has_key m k then modify k f m else m @ [(k, f d)])"

section \<open>The graph\<close>

text \<open>
  \<^verbatim>\<open>networkx.DiGraph\<close> keeps a dict of nodes and, for every node, a dict of its
  successors; both in insertion order. The model keeps the node dict and one dict of
  edges keyed by (source, destination), in the order the edges were added.
  \<^verbatim>\<open>G.edges(data=True)\<close> walks the nodes in order and, for each, its successors in the
  order their edges were added: \<open>edges_view\<close>.
\<close>

record node_data =
  name :: string
  editor_count :: int
  author_count :: int

record edge_data =
  relationship :: string
  issues :: "string list"
  titles :: "string list"

record digraph =
  nodes :: "(string \<times> node_data) list"
  edges :: "((string \<times> string) \<times> edge_data) list"

definition empty_graph :: digraph where
  "empty_graph = \<lparr>nodes = [], edges = []\<rparr>"

definition has_node :: "digraph \<Rightarrow> string \<Rightarrow> bool" where
  "has_node G n = has_key (nodes G) n"

definition has_edge :: "digraph \<Rightarrow> string \<Rightarrow> string \<Rightarrow> bool" where
  "has_edge G u v = has_key (edges G) (u, v)"

text \<open>
  \<^verbatim>\<open>G.add_node(n, **attrs)\<close> and \<^verbatim>\<open>G.add_edge(u, v, **attrs)\<close>. The program calls
  them only for an absent node or edge, and \<open>add_edge\<close> only between nodes that are
  already there (every editor and author of a record gets its node before the record's
  edges are added), so no node is created by \<open>add_edge\<close>.
\<close>

definition add_node :: "digraph \<Rightarrow> string \<Rightarrow> node_data \<Rightarrow> digraph" where
  "add_node G n d =
     (if has_node G n then G\<lparr>nodes := modify n (\<lambda>_. d) (nodes G)\<rparr>
      else G\<lparr>nodes := nodes G @ [(n, d)]\<rparr>)"

definition add_edge :: "digraph \<Rightarrow> string \<Rightarrow> string \<Rightarrow> edge_data \<Rightarrow> digraph" where
  "add_edge G u v d =
     (if has_edge G u v then G\<lparr>edges := modify (u, v) (\<lambda>_. d) (edges G)\<rparr>
      else G\<lparr>edges := edges G @ [((u, v), d)]\<rparr>)"

definition edges_view :: "digraph \<Rightarrow> ((string \<times> string) \<times> edge_data) list" where
  "edges_view G =
     concat (map (\<lambda>n. filter (\<lambda>e. fst (fst e) = n) (edges G)) (map fst (nodes G)))"

section \<open>Building the graph\<close>

text \<open>
  An article record is a dict; every field is read with \<^verbatim>\<open>entry.get(key, default)\<close>,
  so a missing key is \<open>None\<close> here and reads as its default.
\<close>

record article =
  title :: "string option"
  journal :: "string option"
  special_issue :: "string option"
  editors :: "string list option"
  authors :: "string list option"

definition get_or :: "'a \<Rightarrow> 'a option \<Rightarrow> 'a" where
  "get_or d x = (case x of None \<Rightarrow> d | Some v \<Rightarrow> v)"

definition issue_id_of :: "article \<Rightarrow> string" where
  "issue_id_of entry = get_or [] (journal entry) @ '' :: '' @ get_or [] (special_issue entry)"

definition editors_of :: "article \<Rightarrow> string list" where
  "editors_of entry = map normalize_name (get_or [] (editors entry))"

definition authors_of :: "article \<Rightarrow> string list" where
  "authors_of entry = map normalize_name (get_or [] (authors entry))"

text \<open>The bodies of the two node loops (lines 64-67 and 69-72).\<close>

definition count_editor :: "string \<Rightarrow> digraph \<Rightarrow> digraph" where
  "count_editor ed G =
     (let G1 = (if \<not> has_node G ed
                then add_node G ed \<lparr>name = ed, editor_count = 0, author_count = 0\<rparr> else G)
      in G1\<lparr>nodes := modify ed (\<lambda>d. d\<lparr>editor_count := editor_count d + 1\<rparr>) (nodes G1)\<rparr>)"

definition count_author :: "string \<Rightarrow> digraph \<Rightarrow> digraph" where
  "count_author au G =
     (let G1 = (if \<not> has_node G au
                then add_node G au \<lparr>name = au, editor_count = 0, author_count = 0\<rparr> else G)
      in G1\<lparr>nodes := modify au (\<lambda>d. d\<lparr>author_count := author_count d + 1\<rparr>) (nodes G1)\<rparr>)"

text \<open>
  The program has the same create-or-append block three times (lines 77-89, 96-107,
  110-120), for the label \<^verbatim>\<open>editor_to_author\<close> once and \<^verbatim>\<open>co_author\<close> twice:
  \<open>link rel issue_id ttl u v\<close> is that block for the label \<open>rel\<close>.
\<close>

definition link ::
  "string \<Rightarrow> string \<Rightarrow> string \<Rightarrow> string \<Rightarrow> string \<Rightarrow> digraph \<Rightarrow> digraph" where
  "link rel issue_id ttl u v G =
     (if \<not> has_edge G u v
      then add_edge G u v \<lparr>relationship = rel, issues = [issue_id], titles = [ttl]\<rparr>
      else G\<lparr>edges :=
             modify (u, v)
               (\<lambda>d. d\<lparr>relationship :=
                         (if \<not> str_in rel (relationship d)
                          then relationship d @ '','' @ rel else relationship d),
                      issues := issues d @ [issue_id],
                      titles := titles d @ [ttl]\<rparr>)
               (edges G)\<rparr>)"

definition editor_edges :: "string \<Rightarrow> string \<Rightarrow> string list \<Rightarrow> string list \<Rightarrow> digraph \<Rightarrow> digraph" where
  "editor_edges issue_id ttl eds aus G =
     fold (\<lambda>ed G. fold (\<lambda>au G. link ''editor_to_author'' issue_id ttl ed au G) aus G) eds G"

definition coauthor_edges :: "string \<Rightarrow> string \<Rightarrow> string list \<Rightarrow> digraph \<Rightarrow> digraph" where
  "coauthor_edges issue_id ttl aus G =
     fold (\<lambda>i G.
        fold (\<lambda>j G.
           (let a1 = aus ! i; a2 = aus ! j
            in link ''co_author'' issue_id ttl a2 a1 (link ''co_author'' issue_id ttl a1 a2 G)))
          [i + 1 ..< length aus] G)
       [0 ..< length aus] G"

text \<open>One pass of the loop over the articles (lines 50-120).\<close>

definition add_entry :: "article \<Rightarrow> digraph \<Rightarrow> digraph" where
  "add_entry entry G =
     (let ttl = get_or [] (title entry);
          issue_id = issue_id_of entry;
          eds = editors_of entry;
          aus = authors_of entry;
          G1 = fold count_editor eds G;
          G2 = fold count_author aus G1;
          G3 = editor_edges issue_id ttl eds aus G2
      in coauthor_edges issue_id ttl aus G3)"

definition build_partially_directed_graph :: "article list \<Rightarrow> digraph" where
  "build_partially_directed_graph articles = fold add_entry articles empty_graph"

section \<open>Detecting suspicious patterns\<close>

record self_overlap_entry =
  person :: string
  issue :: string

record reciprocal_entry =
  personA :: string
  personB :: string
  issues_A_ed_B_auth :: "string list"
  issues_B_ed_A_auth :: "string list"

record suspicions =
  self_overlap :: "self_overlap_entry list"
  reciprocal :: "reciprocal_entry list"

text \<open>
  \<^verbatim>\<open>person_issue_roles\<close> is a dict person \<open>\<rightarrow>\<close> (dict issue \<open>\<rightarrow>\<close> set of roles);
  \<open>add_role p iss r\<close> is
  \<^verbatim>\<open>person_issue_roles.setdefault(p, {}).setdefault(iss, set()).add(r)\<close>.
\<close>

type_synonym roles_dict = "(string \<times> (string \<times> string set) list) list"

definition add_role :: "string \<Rightarrow> string \<Rightarrow> string \<Rightarrow> roles_dict \<Rightarrow> roles_dict" where
  "add_role p iss r m = setdefault_then p [] (setdefault_then iss {} (insert r)) m"

definition person_issue_roles :: "digraph \<Rightarrow> roles_dict" where
  "person_issue_roles G =
     fold (\<lambda>((u, v), d) m.
        if str_in ''editor_to_author'' (relationship d)
        then fold (\<lambda>iss m. add_role v iss ''author'' (add_role u iss ''editor'' m)) (issues d) m
        else m)
       (edges_view G) []"

definition suspicious_self :: "roles_dict \<Rightarrow> self_overlap_entry list" where
  "suspicious_self m =
     concat (map (\<lambda>(p, issue_roles_dict).
        concat (map (\<lambda>(iss, roles).
           if ''editor'' \<in> roles \<and> ''author'' \<in> roles
           then [\<lparr>person = p, issue = iss\<rparr>] else []) issue_roles_dict)) m)"

definition ed_au_map :: "digraph \<Rightarrow> ((string \<times> string) \<times> string list) list" where
  "ed_au_map G =
     fold (\<lambda>((u, v), d) m.
        if str_in ''editor_to_author'' (relationship d)
        then fold (\<lambda>iss m. setdefault_then (u, v) [] (\<lambda>l. l @ [iss]) m) (issues d) m
        else m)
       (edges_view G) []"

definition suspicious_recip ::
  "((string \<times> string) \<times> string list) list \<Rightarrow> reciprocal_entry list" where
  "suspicious_recip m =
     concat (map (\<lambda>((u, v), issues_uv).
        case map_of m (v, u) of
          None \<Rightarrow> []
        | Some issues_vu \<Rightarrow>
            [\<lparr>personA = u, personB = v,
              issues_A_ed_B_auth = issues_uv, issues_B_ed_A_auth = issues_vu\<rparr>]) m)"

definition detect_suspicious_patterns :: "digraph \<Rightarrow> suspicions" where
  "detect_suspicious_patterns G =
     \<lparr>self_overlap = suspicious_self (person_issue_roles G),
      reciprocal = suspicious_recip (ed_au_map G)\<rparr>"

section \<open>Scoring\<close>

text \<open>\<^verbatim>\<open>score_map[p] = score_map.get(p, 0) + n\<close>\<close>

definition add_score :: "string \<Rightarrow> int \<Rightarrow> (string \<times> int) list \<Rightarrow> (string \<times> int) list" where
  "add_score p n score_map = setdefault_then p 0 (\<lambda>s. s + n) score_map"

definition score_suspicion :: "suspicions \<Rightarrow> (string \<times> int) list" where
  "score_suspicion s =
     (let m1 = fold (\<lambda>e m. add_score (person e) 3 m) (self_overlap s) []
      in fold (\<lambda>r m. add_score (personB r) 2 (add_score (personA r) 2 m)) (reciprocal s) m1)"

section \<open>Co-author clusters\<close>








section \<open>Loading the records\<close>

text \<open>
  \<^verbatim>\<open>load_and_merge_data\<close> reads files. What it can observe of one path is one of four
  things: \<^verbatim>\<open>os.path.exists\<close> is false; the path exists and \<^verbatim>\<open>open\<close> raises (a
  directory, a file without read permission); the file opens and the body of the
  \<^verbatim>\<open>try\<close> raises (\<^verbatim>\<open>json.load\<close> fails on the bytes or on the syntax, or
  \<^verbatim>\<open>extend\<close> fails on a value that is not iterable); or the body of the \<^verbatim>\<open>try\<close>
  succeeds and extends the list by the items of the value. The file system is a function
  from paths to these. The messages printed are returned with the records.
\<close>

datatype 'a source = Missing | Open_raises | Load_raises | Loaded "'a list"

datatype message = File_not_found string | Error_reading string

datatype error = OSError string

fun load_loop ::
  "(string \<Rightarrow> 'a source) \<Rightarrow> string list \<Rightarrow> 'a list \<times> message list \<Rightarrow>
   error + 'a list \<times> message list" where
  "load_loop fs [] (all_data, out) = Inr (all_data, out)"
| "load_loop fs (fpath # rest) (all_data, out) =
     (case fs fpath of
        Missing \<Rightarrow> load_loop fs rest (all_data, out @ [File_not_found fpath])
      | Open_raises \<Rightarrow> Inl (OSError fpath)
      | Load_raises \<Rightarrow> load_loop fs rest (all_data, out @ [Error_reading fpath])
      | Loaded data \<Rightarrow> load_loop fs rest (all_data @ data, out))"

definition load_and_merge_data ::
  "(string \<Rightarrow> 'a source) \<Rightarrow> string list \<Rightarrow> error + 'a list \<times> message list" where
  "load_and_merge_data fs file_paths = load_loop fs file_paths ([], [])"

section \<open>Notions used to state the properties\<close>

text \<open>
  Every pass of the three create-or-append blocks is one \<^emph>\<open>event\<close>: the label, the venue,
  the title and the ordered pair it is for. \<open>entry_events\<close> lists the events of one record
  in the order the program runs them: the editor-author pairs, then for every pair of
  positions \<open>i < j\<close> of the author list the two directions.
\<close>

type_synonym event = "string \<times> string \<times> string \<times> string \<times> string"

definition ev_rel :: "event \<Rightarrow> string" where "ev_rel = (\<lambda>(rel, iss, ttl, u, v). rel)"
definition ev_issue :: "event \<Rightarrow> string" where "ev_issue = (\<lambda>(rel, iss, ttl, u, v). iss)"
definition ev_title :: "event \<Rightarrow> string" where "ev_title = (\<lambda>(rel, iss, ttl, u, v). ttl)"
definition ev_key :: "event \<Rightarrow> string \<times> string" where "ev_key = (\<lambda>(rel, iss, ttl, u, v). (u, v))"

definition apply_event :: "event \<Rightarrow> digraph \<Rightarrow> digraph" where
  "apply_event = (\<lambda>(rel, iss, ttl, u, v). link rel iss ttl u v)"

definition label_step :: "string \<Rightarrow> string \<Rightarrow> string" where
  "label_step rel lbl = (if \<not> str_in rel lbl then lbl @ '','' @ rel else lbl)"

definition fresh :: "event \<Rightarrow> edge_data" where
  "fresh e = \<lparr>relationship = ev_rel e, issues = [ev_issue e], titles = [ev_title e]\<rparr>"

definition absorb :: "event \<Rightarrow> edge_data \<Rightarrow> edge_data" where
  "absorb e d = d\<lparr>relationship := label_step (ev_rel e) (relationship d),
                  issues := issues d @ [ev_issue e], titles := titles d @ [ev_title e]\<rparr>"

definition edge_at :: "digraph \<Rightarrow> string \<times> string \<Rightarrow> edge_data option" where
  "edge_at G k = map_of (edges G) k"

fun author_pairs :: "'a list \<Rightarrow> ('a \<times> 'a) list" where
  "author_pairs [] = []"
| "author_pairs (a # as) = map (Pair a) as @ author_pairs as"

definition editor_events :: "string \<Rightarrow> string \<Rightarrow> string list \<Rightarrow> string list \<Rightarrow> event list" where
  "editor_events iss ttl eds aus =
     concat (map (\<lambda>ed. map (\<lambda>au. (''editor_to_author'', iss, ttl, ed, au)) aus) eds)"

definition coauthor_events :: "string \<Rightarrow> string \<Rightarrow> string list \<Rightarrow> event list" where
  "coauthor_events iss ttl aus =
     concat (map (\<lambda>(a1, a2). [(''co_author'', iss, ttl, a1, a2), (''co_author'', iss, ttl, a2, a1)])
       (author_pairs aus))"

definition entry_events :: "article \<Rightarrow> event list" where
  "entry_events entry =
     editor_events (issue_id_of entry) (get_or [] (title entry)) (editors_of entry) (authors_of entry)
     @ coauthor_events (issue_id_of entry) (get_or [] (title entry)) (authors_of entry)"

definition all_events :: "article list \<Rightarrow> event list" where
  "all_events articles = concat (map entry_events articles)"

definition node_at :: "digraph \<Rightarrow> string \<Rightarrow> node_data option" where
  "node_at G n = map_of (nodes G) n"

definition editor_total :: "article list \<Rightarrow> string \<Rightarrow> nat" where
  "editor_total articles n = sum_list (map (\<lambda>r. count_list (editors_of r) n) articles)"

definition author_total :: "article list \<Rightarrow> string \<Rightarrow> nat" where
  "author_total articles n = sum_list (map (\<lambda>r. count_list (authors_of r) n) articles)"

definition ed_contributions :: "article list \<Rightarrow> string \<Rightarrow> string \<Rightarrow> nat" where
  "ed_contributions articles u v =
     sum_list (map (\<lambda>r. count_list (editors_of r) u * count_list (authors_of r) v) articles)"

definition co_pairs :: "string list \<Rightarrow> string \<Rightarrow> string \<Rightarrow> nat" where
  "co_pairs aus u v =
     (if u = v then count_list aus u * (count_list aus u - 1)
      else count_list aus u * count_list aus v)"

definition co_contributions :: "article list \<Rightarrow> string \<Rightarrow> string \<Rightarrow> nat" where
  "co_contributions articles u v = sum_list (map (\<lambda>r. co_pairs (authors_of r) u v) articles)"

definition key_events :: "article list \<Rightarrow> string \<times> string \<Rightarrow> event list" where
  "key_events articles k = filter (\<lambda>e. ev_key e = k) (all_events articles)"

definition label_of :: "string list \<Rightarrow> string" where
  "label_of rels = (case rels of [] \<Rightarrow> [] | r # rest \<Rightarrow> fold label_step rest r)"

definition four_labels :: "string set" where
  "four_labels = {''editor_to_author'', ''co_author'',
                  ''editor_to_author,co_author'', ''co_author,editor_to_author''}"

definition two_rels :: "string set" where
  "two_rels = {''editor_to_author'', ''co_author''}"

text \<open>
  The records that contribute an editor-author event to the ordered pair \<open>(u, v)\<close>, each
  as many times as it has pairs of an occurrence of \<open>u\<close> among its editors and an occurrence
  of \<open>v\<close> among its authors.
\<close>

definition ed_records :: "article list \<Rightarrow> string \<Rightarrow> string \<Rightarrow> article list" where
  "ed_records articles u v =
     concat (map (\<lambda>r. replicate (count_list (editors_of r) u * count_list (authors_of r) v) r)
       articles)"

text \<open>Records used as concrete inputs.\<close>

definition edited_article :: article where
  "edited_article = \<lparr>title = Some ''T1'', journal = Some ''J'', special_issue = Some ''S1'',
     editors = Some [''ed''], authors = Some [''bo'']\<rparr>"

definition editor_coauthors_article :: article where
  "editor_coauthors_article = \<lparr>title = Some ''T2'', journal = Some ''J'', special_issue = Some ''S2'',
     editors = Some [''ed''], authors = Some [''ed'', ''bo'']\<rparr>"

text \<open>\<open>has_label l G (u, v)\<close>: the edge \<open>u \<rightarrow> v\<close> is in \<open>G\<close> and its label contains \<open>l\<close>.\<close>

definition has_label :: "string \<Rightarrow> digraph \<Rightarrow> string \<times> string \<Rightarrow> bool" where
  "has_label l G k = (case edge_at G k of None \<Rightarrow> False | Some d \<Rightarrow> str_in l (relationship d))"

definition listed_twice_article :: article where
  "listed_twice_article = \<lparr>title = Some ''T3'', journal = Some ''J'', special_issue = Some ''S3'',
     editors = Some [], authors = Some [''Ann'', ''ann '']\<rparr>"

definition three_authors_article :: article where
  "three_authors_article = \<lparr>title = Some ''T4'', journal = Some ''J'', special_issue = Some ''S4'',
     editors = Some [''ed''], authors = Some [''xi'', ''yo'', ''zed'']\<rparr>"

text \<open>
  What networkx guarantees of a \<^verbatim>\<open>DiGraph\<close>: node names and edge keys are dict keys, hence
  distinct, and both end points of an edge are nodes.
\<close>

definition well_formed :: "digraph \<Rightarrow> bool" where
  "well_formed G \<longleftrightarrow>
     distinct (map fst (nodes G)) \<and> distinct (map fst (edges G)) \<and>
     list_all (\<lambda>e. has_node G (fst (fst e)) \<and> has_node G (snd (fst e))) (edges G)"

text \<open>
  The roles recorded for a person at a venue, and what the detector's scan of the edges
  amounts to: \<open>editor_at G p i\<close> when some edge out of \<open>p\<close> has \<^verbatim>\<open>editor_to_author\<close> in its
  label and \<open>i\<close> in its \<^verbatim>\<open>issues\<close> list, \<open>author_at G p i\<close> for an edge into \<open>p\<close>.
\<close>

definition roles_at :: "roles_dict \<Rightarrow> string \<Rightarrow> string \<Rightarrow> string set" where
  "roles_at m p i =
     (case map_of m p of None \<Rightarrow> {}
      | Some d \<Rightarrow> (case map_of d i of None \<Rightarrow> {} | Some roles \<Rightarrow> roles))"

definition dict_of_dicts :: "('a \<times> ('b \<times> 'c) list) list \<Rightarrow> bool" where
  "dict_of_dicts m \<longleftrightarrow> distinct (map fst m) \<and> list_all (\<lambda>e. distinct (map fst (snd e))) m"

definition editor_at :: "digraph \<Rightarrow> string \<Rightarrow> string \<Rightarrow> bool" where
  "editor_at G p i =
     list_ex (\<lambda>e. fst (fst e) = p \<and> str_in ''editor_to_author'' (relationship (snd e))
                  \<and> i \<in> set (issues (snd e))) (edges_view G)"

definition author_at :: "digraph \<Rightarrow> string \<Rightarrow> string \<Rightarrow> bool" where
  "author_at G p i =
     list_ex (\<lambda>e. snd (fst e) = p \<and> str_in ''editor_to_author'' (relationship (snd e))
                  \<and> i \<in> set (issues (snd e))) (edges_view G)"

definition self_edited_article :: article where
  "self_edited_article = \<lparr>title = Some ''T5'', journal = Some ''J'', special_issue = Some ''S5'',
     editors = Some [''Ed''], authors = Some [''ed'']\<rparr>"

text \<open>The body of the loop over the edges that fills \<^verbatim>\<open>person_issue_roles\<close>.\<close>

definition scan_edge ::
  "(string \<times> string) \<times> edge_data \<Rightarrow> roles_dict \<Rightarrow> roles_dict" where
  "scan_edge = (\<lambda>((u, v), d) m.
     if str_in ''editor_to_author'' (relationship d)
     then fold (\<lambda>iss m. add_role v iss ''author'' (add_role u iss ''editor'' m)) (issues d) m
     else m)"

text \<open>The body of the loop over the edges that fills \<^verbatim>\<open>ed_au_map\<close>.\<close>

definition collect_edge ::
  "(string \<times> string) \<times> edge_data \<Rightarrow> ((string \<times> string) \<times> string list) list
   \<Rightarrow> ((string \<times> string) \<times> string list) list" where
  "collect_edge = (\<lambda>((u, v), d) m.
     if str_in ''editor_to_author'' (relationship d)
     then fold (\<lambda>iss m. setdefault_then (u, v) [] (\<lambda>l. l @ [iss]) m) (issues d) m
     else m)"

definition first_edits_article :: article where
  "first_edits_article = \<lparr>title = Some ''T6'', journal = Some ''J'', special_issue = Some ''V1'',
     editors = Some [''ann''], authors = Some [''bob'']\<rparr>"

definition second_edits_article :: article where
  "second_edits_article = \<lparr>title = Some ''T7'', journal = Some ''J'', special_issue = Some ''V2'',
     editors = Some [''bob''], authors = Some [''ann'']\<rparr>"

text \<open>
  How often a person is named by the detector's output: as the person of a self-overlap
  record, and as \<^verbatim>\<open>personA\<close> or as \<^verbatim>\<open>personB\<close> of a reciprocal record (a record naming the
  person in both fields counts twice).
\<close>

definition self_count :: "suspicions \<Rightarrow> string \<Rightarrow> nat" where
  "self_count s p = length (filter (\<lambda>e. person e = p) (self_overlap s))"

definition recip_roles :: "suspicions \<Rightarrow> string \<Rightarrow> nat" where
  "recip_roles s p = length (filter (\<lambda>r. personA r = p) (reciprocal s))
                   + length (filter (\<lambda>r. personB r = p) (reciprocal s))"




section \<open>Facts about dictionaries\<close>

lemma has_key_iff: "has_key m k \<longleftrightarrow> k \<in> fst ` set m"
  by (simp add: has_key_def)

lemma has_key_map_of: "has_key m k \<longleftrightarrow> map_of m k \<noteq> None"
  by (simp add: has_key_def map_of_eq_None_iff)

lemma keys_modify [simp]: "map fst (modify k f m) = map fst m"
  by (induction m) (auto simp: modify_def)

lemma map_of_modify:
  "map_of (modify k f m) k' = (if k' = k then map_option f (map_of m k) else map_of m k')"
  by (induction m) (auto simp: modify_def)

lemma keys_setdefault_then:
  "map fst (setdefault_then k d f m) = (if has_key m k then map fst m else map fst m @ [k])"
  by (simp add: setdefault_then_def)

lemma distinct_setdefault_then:
  "distinct (map fst m) \<Longrightarrow> distinct (map fst (setdefault_then k d f m))"
  by (simp add: keys_setdefault_then has_key_def)

lemma map_of_setdefault_then:
  "map_of (setdefault_then k d f m) k' =
     (if k' = k then Some (f (get_or d (map_of m k))) else map_of m k')"
  by (auto simp: setdefault_then_def map_of_modify has_key_map_of get_or_def map_add_def
           split: option.splits)

section \<open>The loader\<close>

text \<open>
  As long as no path makes \<^verbatim>\<open>open\<close> raise, the loader returns the records of the
  loaded sources in order, and one message for every source it skipped.
\<close>

lemma load_loop_no_open_failure:
  "\<forall>p \<in> set ps. fs p \<noteq> Open_raises \<Longrightarrow>
   load_loop fs ps (acc, out) =
     Inr (acc @ concat (map (\<lambda>p. case fs p of Loaded d \<Rightarrow> d | _ \<Rightarrow> []) ps),
          out @ concat (map (\<lambda>p. case fs p of Missing \<Rightarrow> [File_not_found p]
                                   | Load_raises \<Rightarrow> [Error_reading p] | _ \<Rightarrow> []) ps))"
  by (induction ps arbitrary: acc out) (auto split: source.splits)

lemma load_loop_open_failure:
  "fs p = Open_raises \<Longrightarrow> \<forall>q \<in> set ps. fs q \<noteq> Open_raises \<Longrightarrow>
   load_loop fs (ps @ p # rest) (acc, out) = Inl (OSError p)"
  by (induction ps arbitrary: acc out) (auto split: source.splits)

text \<open>
  Claim C8: the loader never aborts on a bad source; a missing or unreadable source is
  skipped with a warning and the remaining sources are still processed.

  The program guards \<^verbatim>\<open>open\<close> by \<^verbatim>\<open>os.path.exists\<close> only and calls it outside the
  \<^verbatim>\<open>try\<close>: a path that exists and cannot be opened (a directory, a file without read
  permission) raises out of the loader. With the three sources below, of which the second
  is such a path, the load ends in the error and the records of the first and the third
  source are lost.
\<close>

theorem load_and_merge_data_aborts:
  "load_and_merge_data
     (\<lambda>p. if p = ''corpus_dir'' then Open_raises
          else if p = ''b.json'' then Loaded [2, 3] else Loaded [1 :: nat])
     [''a.json'', ''corpus_dir'', ''b.json''] = Inl (OSError ''corpus_dir'')"
  by (simp add: load_and_merge_data_def)

section \<open>The create-or-append block\<close>

lemma nodes_link [simp]: "nodes (link rel iss ttl u v G) = nodes G"
  by (simp add: link_def add_edge_def)

lemma keys_link:
  "map fst (edges (link rel iss ttl u v G)) =
     (if has_edge G u v then map fst (edges G) else map fst (edges G) @ [(u, v)])"
  by (simp add: link_def add_edge_def)

lemma edge_at_link:
  "edge_at (link rel iss ttl u v G) k =
     (if k = (u, v)
      then Some (case edge_at G k of None \<Rightarrow> fresh (rel, iss, ttl, u, v)
                 | Some d \<Rightarrow> absorb (rel, iss, ttl, u, v) d)
      else edge_at G k)"
  by (auto simp: edge_at_def link_def add_edge_def has_edge_def has_key_map_of map_of_modify
        fresh_def absorb_def label_step_def ev_rel_def ev_issue_def ev_title_def map_add_def
        split: option.splits)

lemma nodes_apply_event [simp]: "nodes (apply_event e G) = nodes G"
  by (cases e) (simp add: apply_event_def)

lemma nodes_fold_apply_event [simp]: "nodes (fold apply_event evs G) = nodes G"
  by (induction evs arbitrary: G) auto

lemma keys_apply_event:
  "map fst (edges (apply_event e G)) =
     (if has_key (edges G) (ev_key e) then map fst (edges G) else map fst (edges G) @ [ev_key e])"
  by (cases e) (simp add: apply_event_def keys_link ev_key_def has_edge_def)

lemma distinct_apply_event:
  "distinct (map fst (edges G)) \<Longrightarrow> distinct (map fst (edges (apply_event e G)))"
  by (simp add: keys_apply_event has_key_def)

lemma distinct_fold_apply_event:
  "distinct (map fst (edges G)) \<Longrightarrow> distinct (map fst (edges (fold apply_event evs G)))"
  by (induction evs arbitrary: G) (auto simp: distinct_apply_event)

lemma edge_at_apply_event:
  "edge_at (apply_event e G) k =
     (if k = ev_key e
      then Some (case edge_at G k of None \<Rightarrow> fresh e | Some d \<Rightarrow> absorb e d)
      else edge_at G k)"
  by (cases e) (auto simp add: apply_event_def edge_at_link ev_key_def)

lemma edge_at_fold_apply_event:
  "edge_at (fold apply_event evs G) k =
     (case edge_at G k of
        Some d \<Rightarrow> Some (fold absorb (filter (\<lambda>e. ev_key e = k) evs) d)
      | None \<Rightarrow> (case filter (\<lambda>e. ev_key e = k) evs of [] \<Rightarrow> None
                 | e # rest \<Rightarrow> Some (fold absorb rest (fresh e))))"
  by (induction evs arbitrary: G) (auto simp: edge_at_apply_event split: option.splits list.splits)

section \<open>The edge loops as lists of events\<close>

lemma editor_edges_events:
  "editor_edges iss ttl eds aus G = fold apply_event (editor_events iss ttl eds aus) G"
proof -
  have inner: "fold (\<lambda>au G. link ''editor_to_author'' iss ttl ed au G) aus G
      = fold apply_event (map (\<lambda>au. (''editor_to_author'', iss, ttl, ed, au)) aus) G" for ed G
    by (induction aus arbitrary: G) (simp_all add: apply_event_def)
  show ?thesis
    unfolding editor_edges_def editor_events_def
    by (induction eds arbitrary: G) (simp_all add: inner)
qed

lemma fold_index_pairs:
  "fold (\<lambda>i. fold (\<lambda>j. g (xs ! i) (xs ! j)) [i + 1 ..< length xs]) [0 ..< length xs] s
     = fold (\<lambda>(a, b). g a b) (author_pairs xs) s"
proof (induction xs arbitrary: s)
  case Nil
  show ?case by simp
next
  case (Cons a as)
  have row: "fold (\<lambda>j. g a ((a # as) ! j)) [Suc 0 ..< Suc (length as)] s = fold (g a) as s" for s
  proof -
    have "fold (\<lambda>j. g a ((a # as) ! j)) (map Suc [0 ..< length as]) s
        = fold (g a) (map (nth as) [0 ..< length as]) s"
      by (simp add: fold_map comp_def)
    then show ?thesis by (simp add: map_Suc_upt map_nth)
  qed
  have rest: "fold (\<lambda>i. fold (\<lambda>j. g ((a # as) ! i) ((a # as) ! j)) [i + 1 ..< length (a # as)])
                (map Suc [0 ..< length as]) s
      = fold (\<lambda>i. fold (\<lambda>j. g (as ! i) (as ! j)) [i + 1 ..< length as]) [0 ..< length as] s" for s
  proof -
    have "\<And>i. fold (\<lambda>j. g (as ! i) ((a # as) ! j)) [Suc (Suc i) ..< Suc (length as)]
          = fold (\<lambda>j. g (as ! i) (as ! j)) [Suc i ..< length as]"
    proof -
      fix i
      have "[Suc (Suc i) ..< Suc (length as)] = map Suc [Suc i ..< length as]"
        by (simp add: map_Suc_upt)
      then show "fold (\<lambda>j. g (as ! i) ((a # as) ! j)) [Suc (Suc i) ..< Suc (length as)]
          = fold (\<lambda>j. g (as ! i) (as ! j)) [Suc i ..< length as]"
        by (simp add: fold_map comp_def)
    qed
    then show ?thesis by (simp add: fold_map comp_def)
  qed
  have "[0 ..< length (a # as)] = 0 # map Suc [0 ..< length as]"
    by (simp only: length_Cons map_Suc_upt upt_conv_Cons [OF zero_less_Suc])
  then have "fold (\<lambda>i. fold (\<lambda>j. g ((a # as) ! i) ((a # as) ! j)) [i + 1 ..< length (a # as)])
        [0 ..< length (a # as)] s
      = fold (\<lambda>i. fold (\<lambda>j. g ((a # as) ! i) ((a # as) ! j)) [i + 1 ..< length (a # as)])
          (map Suc [0 ..< length as]) (fold (\<lambda>j. g a ((a # as) ! j)) [Suc 0 ..< Suc (length as)] s)"
    by simp
  also have "\<dots> = fold (\<lambda>(a, b). g a b) (author_pairs as) (fold (g a) as s)"
    by (simp only: rest row Cons.IH)
  also have "\<dots> = fold (\<lambda>(a, b). g a b) (author_pairs (a # as)) s"
    by (simp add: fold_map comp_def)
  finally show ?case .
qed

lemma coauthor_edges_events:
  "coauthor_edges iss ttl aus G = fold apply_event (coauthor_events iss ttl aus) G"
proof -
  have "coauthor_edges iss ttl aus G
      = fold (\<lambda>(a1, a2). \<lambda>G. link ''co_author'' iss ttl a2 a1 (link ''co_author'' iss ttl a1 a2 G))
          (author_pairs aus) G"
    unfolding coauthor_edges_def Let_def
    using fold_index_pairs [of "\<lambda>a1 a2 G. link ''co_author'' iss ttl a2 a1 (link ''co_author'' iss ttl a1 a2 G)" aus G]
    by simp
  also have "\<dots> = fold apply_event (coauthor_events iss ttl aus) G"
  proof -
    have "fold (\<lambda>(a1, a2). \<lambda>G. link ''co_author'' iss ttl a2 a1 (link ''co_author'' iss ttl a1 a2 G)) ps G
        = fold apply_event
            (concat (map (\<lambda>(a1, a2). [(''co_author'', iss, ttl, a1, a2), (''co_author'', iss, ttl, a2, a1)]) ps)) G"
      for ps
      by (induction ps arbitrary: G) (auto simp: apply_event_def)
    then show ?thesis by (simp add: coauthor_events_def)
  qed
  finally show ?thesis .
qed

section \<open>The node loops\<close>

lemma edges_count_editor [simp]: "edges (count_editor ed G) = edges G"
  by (simp add: count_editor_def add_node_def Let_def)

lemma edges_count_author [simp]: "edges (count_author au G) = edges G"
  by (simp add: count_author_def add_node_def Let_def)

lemma edges_fold_count_editor [simp]: "edges (fold count_editor eds G) = edges G"
  by (induction eds arbitrary: G) auto

lemma edges_fold_count_author [simp]: "edges (fold count_author aus G) = edges G"
  by (induction aus arbitrary: G) auto

lemma node_at_count_editor:
  "node_at (count_editor ed G) n =
     (if n = ed
      then Some (case node_at G n of
                   None \<Rightarrow> \<lparr>name = ed, editor_count = 1, author_count = 0\<rparr>
                 | Some d \<Rightarrow> d\<lparr>editor_count := editor_count d + 1\<rparr>)
      else node_at G n)"
  by (auto simp: node_at_def count_editor_def add_node_def has_node_def has_key_map_of
        map_of_modify Let_def map_add_def split: option.splits)

lemma node_at_count_author:
  "node_at (count_author au G) n =
     (if n = au
      then Some (case node_at G n of
                   None \<Rightarrow> \<lparr>name = au, editor_count = 0, author_count = 1\<rparr>
                 | Some d \<Rightarrow> d\<lparr>author_count := author_count d + 1\<rparr>)
      else node_at G n)"
  by (auto simp: node_at_def count_author_def add_node_def has_node_def has_key_map_of
        map_of_modify Let_def map_add_def split: option.splits)

lemma node_keys_count_editor:
  "map fst (nodes (count_editor ed G)) =
     (if has_node G ed then map fst (nodes G) else map fst (nodes G) @ [ed])"
  by (simp add: count_editor_def add_node_def Let_def)

lemma node_keys_count_author:
  "map fst (nodes (count_author au G)) =
     (if has_node G au then map fst (nodes G) else map fst (nodes G) @ [au])"
  by (simp add: count_author_def add_node_def Let_def)

lemma distinct_fold_count_editor:
  "distinct (map fst (nodes G)) \<Longrightarrow> distinct (map fst (nodes (fold count_editor eds G)))"
  by (induction eds arbitrary: G) (auto simp: node_keys_count_editor has_node_def has_key_def)

lemma distinct_fold_count_author:
  "distinct (map fst (nodes G)) \<Longrightarrow> distinct (map fst (nodes (fold count_author aus G)))"
  by (induction aus arbitrary: G) (auto simp: node_keys_count_author has_node_def has_key_def)

lemma node_at_fold_count_editor:
  "node_at (fold count_editor eds G) n =
     (case node_at G n of
        Some d \<Rightarrow> Some (d\<lparr>editor_count := editor_count d + int (count_list eds n)\<rparr>)
      | None \<Rightarrow> if n \<in> set eds
                then Some \<lparr>name = n, editor_count = int (count_list eds n), author_count = 0\<rparr>
                else None)"
proof (induction eds arbitrary: G)
  case Nil
  show ?case by (simp split: option.splits)
next
  case (Cons ed eds)
  show ?case
    by (cases "node_at G n") (auto simp: Cons.IH node_at_count_editor add.commute add.left_commute)
qed

lemma node_at_fold_count_author:
  "node_at (fold count_author aus G) n =
     (case node_at G n of
        Some d \<Rightarrow> Some (d\<lparr>author_count := author_count d + int (count_list aus n)\<rparr>)
      | None \<Rightarrow> if n \<in> set aus
                then Some \<lparr>name = n, editor_count = 0, author_count = int (count_list aus n)\<rparr>
                else None)"
proof (induction aus arbitrary: G)
  case Nil
  show ?case by (simp split: option.splits)
next
  case (Cons au aus)
  show ?case
    by (cases "node_at G n") (auto simp: Cons.IH node_at_count_author add.commute add.left_commute)
qed


section \<open>One record, and all of them\<close>

lemma edges_fold_apply_event_cong:
  "edges G = edges G' \<Longrightarrow> edges (fold apply_event evs G) = edges (fold apply_event evs G')"
proof (induction evs arbitrary: G G')
  case Nil
  then show ?case by simp
next
  case (Cons e evs)
  have "edges (apply_event e G) = edges (apply_event e G')"
    using Cons.prems by (cases e) (simp add: apply_event_def link_def add_edge_def has_edge_def)
  then have "edges (fold apply_event evs (apply_event e G))
      = edges (fold apply_event evs (apply_event e G'))"
    by (rule Cons.IH)
  then show ?case by simp
qed

lemma add_entry_events:
  "add_entry entry G =
     fold apply_event (entry_events entry)
       (fold count_author (authors_of entry) (fold count_editor (editors_of entry) G))"
  by (simp add: add_entry_def Let_def entry_events_def editor_edges_events coauthor_edges_events)

lemma nodes_add_entry:
  "nodes (add_entry entry G) =
     nodes (fold count_author (authors_of entry) (fold count_editor (editors_of entry) G))"
  by (simp add: add_entry_events)

lemma edges_add_entry:
  "edges (add_entry entry G) = edges (fold apply_event (entry_events entry) G)"
  unfolding add_entry_events by (rule edges_fold_apply_event_cong) simp

lemma edges_fold_add_entry:
  "edges (fold add_entry articles G) = edges (fold apply_event (all_events articles) G)"
proof (induction articles arbitrary: G)
  case Nil
  show ?case by (simp add: all_events_def)
next
  case (Cons r rs)
  have "edges (fold add_entry (r # rs) G) = edges (fold apply_event (all_events rs) (add_entry r G))"
    by (simp add: Cons.IH)
  also have "\<dots> = edges (fold apply_event (all_events rs) (fold apply_event (entry_events r) G))"
    by (rule edges_fold_apply_event_cong) (rule edges_add_entry)
  finally show ?case by (simp add: all_events_def)
qed

lemma edges_build:
  "edges (build_partially_directed_graph articles)
     = edges (fold apply_event (all_events articles) empty_graph)"
  by (simp add: build_partially_directed_graph_def edges_fold_add_entry)

lemma distinct_edge_keys_build:
  "distinct (map fst (edges (build_partially_directed_graph articles)))"
  by (simp add: edges_build distinct_fold_apply_event empty_graph_def)

lemma edge_at_build:
  "edge_at (build_partially_directed_graph articles) k =
     (case filter (\<lambda>e. ev_key e = k) (all_events articles) of
        [] \<Rightarrow> None
      | e # rest \<Rightarrow> Some (fold absorb rest (fresh e)))"
proof -
  have "edge_at (build_partially_directed_graph articles) k
      = edge_at (fold apply_event (all_events articles) empty_graph) k"
    by (simp add: edge_at_def edges_build)
  then show ?thesis
    by (simp add: edge_at_fold_apply_event) (simp add: edge_at_def empty_graph_def)
qed

lemma node_at_add_entry:
  "node_at (add_entry entry G) n =
     (case node_at G n of
        Some d \<Rightarrow> Some (d\<lparr>editor_count := editor_count d + int (count_list (editors_of entry) n),
                          author_count := author_count d + int (count_list (authors_of entry) n)\<rparr>)
      | None \<Rightarrow> if n \<in> set (editors_of entry) \<union> set (authors_of entry)
                then Some \<lparr>name = n, editor_count = int (count_list (editors_of entry) n),
                           author_count = int (count_list (authors_of entry) n)\<rparr>
                else None)"
proof -
  have "node_at (add_entry entry G) n
      = node_at (fold count_author (authors_of entry) (fold count_editor (editors_of entry) G)) n"
    by (simp add: node_at_def nodes_add_entry)
  then show ?thesis
    by (cases "node_at G n")
      (simp_all add: node_at_fold_count_author node_at_fold_count_editor count_list_0_iff)
qed

lemma node_at_fold_add_entry:
  "node_at (fold add_entry articles G) n =
     (case node_at G n of
        Some d \<Rightarrow> Some (d\<lparr>editor_count := editor_count d + int (editor_total articles n),
                          author_count := author_count d + int (author_total articles n)\<rparr>)
      | None \<Rightarrow> if 0 < editor_total articles n + author_total articles n
                then Some \<lparr>name = n, editor_count = int (editor_total articles n),
                           author_count = int (author_total articles n)\<rparr>
                else None)"
proof (induction articles arbitrary: G)
  case Nil
  show ?case by (simp add: editor_total_def author_total_def split: option.splits)
next
  case (Cons r rs)
  have tot: "editor_total (r # rs) n = count_list (editors_of r) n + editor_total rs n"
    "author_total (r # rs) n = count_list (authors_of r) n + author_total rs n"
    by (simp_all add: editor_total_def author_total_def)
  show ?case
  proof (cases "node_at G n")
    case None
    then show ?thesis
      by (simp add: Cons.IH node_at_add_entry tot count_list_0_iff)
  next
    case (Some d)
    then show ?thesis
      by (simp add: Cons.IH node_at_add_entry tot)
  qed
qed

lemma node_at_build:
  "node_at (build_partially_directed_graph articles) n =
     (if 0 < editor_total articles n + author_total articles n
      then Some \<lparr>name = n, editor_count = int (editor_total articles n),
                 author_count = int (author_total articles n)\<rparr>
      else None)"
  by (simp add: build_partially_directed_graph_def node_at_fold_add_entry)
    (simp add: node_at_def empty_graph_def)

lemma distinct_node_keys_build:
  "distinct (map fst (nodes (build_partially_directed_graph articles)))"
proof -
  have "distinct (map fst (nodes G)) \<Longrightarrow> distinct (map fst (nodes (fold add_entry articles G)))" for G
    by (induction articles arbitrary: G)
      (auto simp: nodes_add_entry distinct_fold_count_author distinct_fold_count_editor)
  then show ?thesis by (simp add: build_partially_directed_graph_def empty_graph_def)
qed

section \<open>What an edge has absorbed\<close>

lemma issues_fold_absorb: "issues (fold absorb es d) = issues d @ map ev_issue es"
  by (induction es arbitrary: d) (simp_all add: absorb_def)

lemma titles_fold_absorb: "titles (fold absorb es d) = titles d @ map ev_title es"
  by (induction es arbitrary: d) (simp_all add: absorb_def)

lemma relationship_fold_absorb:
  "relationship (fold absorb es d) = fold label_step (map ev_rel es) (relationship d)"
  by (induction es arbitrary: d) (simp_all add: absorb_def)

lemma edge_at_build_key_events:
  "edge_at (build_partially_directed_graph articles) k =
     (case key_events articles k of
        [] \<Rightarrow> None
      | e # rest \<Rightarrow>
          Some \<lparr>relationship = fold label_step (map ev_rel rest) (ev_rel e),
                issues = map ev_issue (e # rest), titles = map ev_title (e # rest)\<rparr>)"
proof (cases "key_events articles k")
  case Nil
  then show ?thesis by (simp add: edge_at_build key_events_def)
next
  case (Cons e rest)
  have "fold absorb rest (fresh e)
      = \<lparr>relationship = fold label_step (map ev_rel rest) (ev_rel e),
         issues = map ev_issue (e # rest), titles = map ev_title (e # rest)\<rparr>"
    by (rule edge_data.equality)
      (simp_all add: issues_fold_absorb titles_fold_absorb relationship_fold_absorb fresh_def)
  with Cons show ?thesis
    using edge_at_build [of articles k] by (simp add: key_events_def)
qed

section \<open>Counting the events of an ordered pair\<close>

lemma ev_simps [simp]:
  "ev_rel (rel, iss, ttl, u, v) = rel" "ev_issue (rel, iss, ttl, u, v) = iss"
  "ev_title (rel, iss, ttl, u, v) = ttl" "ev_key (rel, iss, ttl, u, v) = (u, v)"
  by (simp_all add: ev_rel_def ev_issue_def ev_title_def ev_key_def)

lemma count_editor_row:
  "length (filter ((\<lambda>e. ev_key e = (u, v)) \<circ> (\<lambda>au. (rel, iss, ttl, ed, au))) aus)
     = (if ed = u then count_list aus v else 0)"
  by (induction aus) auto

lemma count_editor_events:
  "length (filter (\<lambda>e. ev_key e = (u, v)) (editor_events iss ttl eds aus))
     = count_list eds u * count_list aus v"
  unfolding editor_events_def
  by (induction eds) (simp_all add: count_editor_row)

lemma count_coauthor_row:
  "length (filter (\<lambda>e. ev_key e = (u, v))
      (concat (map (\<lambda>(a1, a2). [(rel, iss, ttl, a1, a2), (rel, iss, ttl, a2, a1)])
         (map (Pair a) as))))
     = (if a = u then count_list as v else 0) + (if a = v then count_list as u else 0)"
  by (induction as) auto

lemma co_pairs_Cons:
  "co_pairs (a # as) u v
     = (if a = u then count_list as v else 0) + (if a = v then count_list as u else 0)
       + co_pairs as u v"
proof (cases "u = v")
  case True
  have "Suc c * c = 2 * c + c * (c - 1)" for c :: nat
    by (cases c) (simp_all add: algebra_simps)
  then show ?thesis using True by (simp add: co_pairs_def)
next
  case False
  then show ?thesis by (auto simp: co_pairs_def algebra_simps)
qed

lemma count_coauthor_events:
  "length (filter (\<lambda>e. ev_key e = (u, v)) (coauthor_events iss ttl aus)) = co_pairs aus u v"
proof (induction aus)
  case Nil
  show ?case by (simp add: coauthor_events_def co_pairs_def)
next
  case (Cons a as)
  have "coauthor_events iss ttl (a # as)
      = concat (map (\<lambda>(a1, a2). [(''co_author'', iss, ttl, a1, a2), (''co_author'', iss, ttl, a2, a1)])
          (map (Pair a) as)) @ coauthor_events iss ttl as"
    by (simp add: coauthor_events_def)
  then show ?case
    by (simp only: filter_append length_append count_coauthor_row Cons.IH co_pairs_Cons)
qed

lemma rel_editor_events: "e \<in> set (editor_events iss ttl eds aus) \<Longrightarrow> ev_rel e = ''editor_to_author''"
  by (auto simp: editor_events_def)

lemma rel_coauthor_events: "e \<in> set (coauthor_events iss ttl aus) \<Longrightarrow> ev_rel e = ''co_author''"
  by (auto simp: coauthor_events_def)

lemma filter_none: "(\<And>x. x \<in> set xs \<Longrightarrow> \<not> P x) \<Longrightarrow> filter P xs = []"
  by (induction xs) auto

lemma filter_all: "(\<And>x. x \<in> set xs \<Longrightarrow> P x) \<Longrightarrow> filter P xs = xs"
  by (induction xs) auto

lemma entry_events_editor_part:
  "length (filter (\<lambda>e. ev_key e = (u, v) \<and> ev_rel e = ''editor_to_author'') (entry_events r))
     = count_list (editors_of r) u * count_list (authors_of r) v"
proof -
  let ?ed = "editor_events (issue_id_of r) (get_or [] (title r)) (editors_of r) (authors_of r)"
  let ?co = "coauthor_events (issue_id_of r) (get_or [] (title r)) (authors_of r)"
  have 1: "filter (\<lambda>e. ev_key e = (u, v) \<and> ev_rel e = ''editor_to_author'') ?ed
      = filter (\<lambda>e. ev_key e = (u, v)) ?ed"
    by (rule filter_cong) (auto dest: rel_editor_events)
  have 2: "filter (\<lambda>e. ev_key e = (u, v) \<and> ev_rel e = ''editor_to_author'') ?co = []"
    by (rule filter_none) (auto dest: rel_coauthor_events)
  show ?thesis
    by (simp add: entry_events_def 1 2 count_editor_events)
qed

lemma entry_events_coauthor_part:
  "length (filter (\<lambda>e. ev_key e = (u, v) \<and> ev_rel e = ''co_author'') (entry_events r))
     = co_pairs (authors_of r) u v"
proof -
  let ?ed = "editor_events (issue_id_of r) (get_or [] (title r)) (editors_of r) (authors_of r)"
  let ?co = "coauthor_events (issue_id_of r) (get_or [] (title r)) (authors_of r)"
  have 1: "filter (\<lambda>e. ev_key e = (u, v) \<and> ev_rel e = ''co_author'') ?co
      = filter (\<lambda>e. ev_key e = (u, v)) ?co"
    by (rule filter_cong) (auto dest: rel_coauthor_events)
  have 2: "filter (\<lambda>e. ev_key e = (u, v) \<and> ev_rel e = ''co_author'') ?ed = []"
    by (rule filter_none) (auto dest: rel_editor_events)
  show ?thesis
    by (simp add: entry_events_def 1 2 count_coauthor_events)
qed

lemma key_events_Nil [simp]: "key_events [] k = []"
  by (simp add: key_events_def all_events_def)

lemma key_events_Cons:
  "key_events (r # rs) k = filter (\<lambda>e. ev_key e = k) (entry_events r) @ key_events rs k"
  by (simp add: key_events_def all_events_def)

lemma key_events_append: "key_events (rs @ rs') k = key_events rs k @ key_events rs' k"
  by (simp add: key_events_def all_events_def)

lemma editor_part_key_events:
  "length (filter (\<lambda>e. ev_rel e = ''editor_to_author'') (key_events articles (u, v)))
     = ed_contributions articles u v"
  by (induction articles)
    (simp_all add: key_events_Cons entry_events_editor_part ed_contributions_def)

lemma coauthor_part_key_events:
  "length (filter (\<lambda>e. ev_rel e = ''co_author'') (key_events articles (u, v)))
     = co_contributions articles u v"
  by (induction articles)
    (simp_all add: key_events_Cons entry_events_coauthor_part co_contributions_def)

lemma rel_key_events:
  "e \<in> set (key_events articles k) \<Longrightarrow> ev_rel e = ''editor_to_author'' \<or> ev_rel e = ''co_author''"
  by (auto simp: key_events_def all_events_def entry_events_def
        dest: rel_editor_events rel_coauthor_events)

lemma length_key_events:
  "length (key_events articles (u, v))
     = ed_contributions articles u v + co_contributions articles u v"
proof -
  let ?xs = "key_events articles (u, v)"
  have "filter (\<lambda>e. \<not> ev_rel e = ''editor_to_author'') ?xs
      = filter (\<lambda>e. ev_rel e = ''co_author'') ?xs"
    by (rule filter_cong) (auto dest: rel_key_events)
  moreover have "length ?xs = length (filter (\<lambda>e. ev_rel e = ''editor_to_author'') ?xs)
      + length (filter (\<lambda>e. \<not> ev_rel e = ''editor_to_author'') ?xs)"
    by (rule sum_length_filter_compl [symmetric])
  ultimately show ?thesis
    by (simp add: editor_part_key_events coauthor_part_key_events)
qed

section \<open>The four labels\<close>

lemma str_in_facts:
  "str_in ''editor_to_author'' ''editor_to_author''"
  "\<not> str_in ''co_author'' ''editor_to_author''"
  "str_in ''co_author'' ''co_author''"
  "\<not> str_in ''editor_to_author'' ''co_author''"
  "str_in ''editor_to_author'' ''editor_to_author,co_author''"
  "str_in ''co_author'' ''editor_to_author,co_author''"
  "str_in ''editor_to_author'' ''co_author,editor_to_author''"
  "str_in ''co_author'' ''co_author,editor_to_author''"
  by simp_all

lemma occurrences_facts:
  "occurrences ''editor_to_author'' ''editor_to_author'' = 1"
  "occurrences ''co_author'' ''editor_to_author'' = 0"
  "occurrences ''co_author'' ''co_author'' = 1"
  "occurrences ''editor_to_author'' ''co_author'' = 0"
  "occurrences ''editor_to_author'' ''editor_to_author,co_author'' = 1"
  "occurrences ''co_author'' ''editor_to_author,co_author'' = 1"
  "occurrences ''editor_to_author'' ''co_author,editor_to_author'' = 1"
  "occurrences ''co_author'' ''co_author,editor_to_author'' = 1"
  by simp_all


lemma label_step_table:
  "label_step ''editor_to_author'' ''editor_to_author'' = ''editor_to_author''"
  "label_step ''co_author'' ''editor_to_author'' = ''editor_to_author,co_author''"
  "label_step ''editor_to_author'' ''co_author'' = ''co_author,editor_to_author''"
  "label_step ''co_author'' ''co_author'' = ''co_author''"
  "label_step ''editor_to_author'' ''editor_to_author,co_author'' = ''editor_to_author,co_author''"
  "label_step ''co_author'' ''editor_to_author,co_author'' = ''editor_to_author,co_author''"
  "label_step ''editor_to_author'' ''co_author,editor_to_author'' = ''co_author,editor_to_author''"
  "label_step ''co_author'' ''co_author,editor_to_author'' = ''co_author,editor_to_author''"
  by (simp_all add: label_step_def)

lemma label_step_four:
  assumes "lbl \<in> four_labels" and "r \<in> two_rels"
  shows "label_step r lbl \<in> four_labels"
    and "str_in ''editor_to_author'' (label_step r lbl)
           \<longleftrightarrow> str_in ''editor_to_author'' lbl \<or> r = ''editor_to_author''"
    and "str_in ''co_author'' (label_step r lbl)
           \<longleftrightarrow> str_in ''co_author'' lbl \<or> r = ''co_author''"
proof -
  from assms have c: "(lbl = ''editor_to_author'' \<or> lbl = ''co_author'' \<or>
      lbl = ''editor_to_author,co_author'' \<or> lbl = ''co_author,editor_to_author'')"
    by (simp add: four_labels_def)
  have r: "r = ''editor_to_author'' \<or> r = ''co_author''"
    using assms(2) unfolding two_rels_def insert_iff empty_iff by blast
  show "label_step r lbl \<in> four_labels"
    using c r by (elim disjE) (simp_all only: label_step_table four_labels_def insert_iff simp_thms)
  show "str_in ''editor_to_author'' (label_step r lbl)
           \<longleftrightarrow> str_in ''editor_to_author'' lbl \<or> r = ''editor_to_author''"
    using c r by (elim disjE) (simp_all only: label_step_table str_in_facts, simp_all)
  show "str_in ''co_author'' (label_step r lbl)
           \<longleftrightarrow> str_in ''co_author'' lbl \<or> r = ''co_author''"
    using c r by (elim disjE) (simp_all only: label_step_table str_in_facts, simp_all)
qed

lemma fold_step_invariant:
  assumes step: "\<And>l r. l \<in> L \<Longrightarrow> r \<in> R \<Longrightarrow> f r l \<in> L \<and> (Q (f r l) \<longleftrightarrow> Q l \<or> r = a)"
    and "l \<in> L" and "set rs \<subseteq> R"
  shows "fold f rs l \<in> L \<and> (Q (fold f rs l) \<longleftrightarrow> Q l \<or> a \<in> set rs)"
  using assms(2,3)
proof (induction rs arbitrary: l)
  case Nil
  then show ?case by simp
next
  case (Cons r rs)
  have r: "r \<in> R" and rs: "set rs \<subseteq> R"
    using Cons.prems(2) by simp_all
  have s: "f r l \<in> L" "Q (f r l) \<longleftrightarrow> Q l \<or> r = a"
    using step [OF Cons.prems(1) r] by simp_all
  have "fold f rs (f r l) \<in> L \<and> (Q (fold f rs (f r l)) \<longleftrightarrow> Q (f r l) \<or> a \<in> set rs)"
    by (rule Cons.IH [OF s(1) rs])
  then show ?case
    unfolding fold_Cons comp_def set_simps insert_iff using s(2) by blast
qed

lemma fold_label_step_four:
  assumes "lbl \<in> four_labels" and "set rels \<subseteq> two_rels"
  shows "fold label_step rels lbl \<in> four_labels"
    and "str_in ''editor_to_author'' (fold label_step rels lbl)
           \<longleftrightarrow> str_in ''editor_to_author'' lbl \<or> ''editor_to_author'' \<in> set rels"
    and "str_in ''co_author'' (fold label_step rels lbl)
           \<longleftrightarrow> str_in ''co_author'' lbl \<or> ''co_author'' \<in> set rels"
proof -
  have r: "r = ''editor_to_author'' \<or> r = ''co_author''" if "r \<in> two_rels" for r
    using that unfolding two_rels_def insert_iff empty_iff by blast
  have e: "fold label_step rels lbl \<in> four_labels \<and>
      (str_in ''editor_to_author'' (fold label_step rels lbl)
         \<longleftrightarrow> str_in ''editor_to_author'' lbl \<or> ''editor_to_author'' \<in> set rels)"
    by (rule fold_step_invariant [where R = two_rels, OF _ assms])
      (use label_step_four r in blast)
  have c: "fold label_step rels lbl \<in> four_labels \<and>
      (str_in ''co_author'' (fold label_step rels lbl)
         \<longleftrightarrow> str_in ''co_author'' lbl \<or> ''co_author'' \<in> set rels)"
    by (rule fold_step_invariant [where R = two_rels, OF _ assms])
      (use label_step_four r in blast)
  show "fold label_step rels lbl \<in> four_labels" using e by (rule conjunct1)
  show "str_in ''editor_to_author'' (fold label_step rels lbl)
           \<longleftrightarrow> str_in ''editor_to_author'' lbl \<or> ''editor_to_author'' \<in> set rels"
    using e by (rule conjunct2)
  show "str_in ''co_author'' (fold label_step rels lbl)
           \<longleftrightarrow> str_in ''co_author'' lbl \<or> ''co_author'' \<in> set rels"
    using c by (rule conjunct2)
qed

lemma occurrences_four:
  assumes "lbl \<in> four_labels"
  shows "occurrences ''editor_to_author'' lbl = (if str_in ''editor_to_author'' lbl then 1 else 0)"
    and "occurrences ''co_author'' lbl = (if str_in ''co_author'' lbl then 1 else 0)"
proof -
  from assms have c: "(lbl = ''editor_to_author'' \<or> lbl = ''co_author'' \<or>
      lbl = ''editor_to_author,co_author'' \<or> lbl = ''co_author,editor_to_author'')"
    by (simp add: four_labels_def)
  show "occurrences ''editor_to_author'' lbl = (if str_in ''editor_to_author'' lbl then 1 else 0)"
    using c by (elim disjE) (simp_all only: occurrences_facts str_in_facts if_True if_False)
  show "occurrences ''co_author'' lbl = (if str_in ''co_author'' lbl then 1 else 0)"
    using c by (elim disjE) (simp_all only: occurrences_facts str_in_facts if_True if_False)
qed

lemma two_rels_four:
  assumes "r \<in> two_rels"
  shows "r \<in> four_labels"
    and "str_in ''editor_to_author'' r \<longleftrightarrow> r = ''editor_to_author''"
    and "str_in ''co_author'' r \<longleftrightarrow> r = ''co_author''"
proof -
  have r: "r = ''editor_to_author'' \<or> r = ''co_author''"
    using assms unfolding two_rels_def insert_iff empty_iff by blast
  show "r \<in> four_labels"
    using r unfolding four_labels_def insert_iff by blast
  show "str_in ''editor_to_author'' r \<longleftrightarrow> r = ''editor_to_author''"
    using r by (elim disjE) (simp_all only: str_in_facts, simp_all)
  show "str_in ''co_author'' r \<longleftrightarrow> r = ''co_author''"
    using r by (elim disjE) (simp_all only: str_in_facts, simp_all)
qed

lemma label_of_four:
  assumes "rels \<noteq> []" and "set rels \<subseteq> two_rels"
  shows "label_of rels \<in> four_labels"
    and "str_in ''editor_to_author'' (label_of rels) \<longleftrightarrow> ''editor_to_author'' \<in> set rels"
    and "str_in ''co_author'' (label_of rels) \<longleftrightarrow> ''co_author'' \<in> set rels"
proof -
  obtain r rest where rels: "rels = r # rest"
    using assms(1) by (cases rels) auto
  have r: "r \<in> two_rels" and rest: "set rest \<subseteq> two_rels"
    using assms(2) unfolding rels by simp_all
  note r4 = two_rels_four [OF r]
  note f = fold_label_step_four [OF r4(1) rest]
  have l: "label_of (r # rest) = fold label_step rest r"
    by (simp add: label_of_def)
  show "label_of rels \<in> four_labels"
    unfolding rels l by (rule f(1))
  show "str_in ''editor_to_author'' (label_of rels) \<longleftrightarrow> ''editor_to_author'' \<in> set rels"
    unfolding rels l set_simps insert_iff using f(2) r4(2) by blast
  show "str_in ''co_author'' (label_of rels) \<longleftrightarrow> ''co_author'' \<in> set rels"
    unfolding rels l set_simps insert_iff using f(3) r4(3) by blast
qed

section \<open>The edges of a built graph\<close>

lemma rels_key_events: "set (map ev_rel (key_events articles k)) \<subseteq> two_rels"
proof
  fix r
  assume "r \<in> set (map ev_rel (key_events articles k))"
  then obtain e where "e \<in> set (key_events articles k)" and "r = ev_rel e"
    by auto
  then have "r = ''editor_to_author'' \<or> r = ''co_author''"
    using rel_key_events by blast
  then show "r \<in> two_rels"
    unfolding two_rels_def insert_iff by blast
qed

lemma in_map_iff_filter: "y \<in> set (map f xs) \<longleftrightarrow> 0 < length (filter (\<lambda>x. f x = y) xs)"
  by (induction xs) auto

lemma editor_rel_iff:
  "''editor_to_author'' \<in> set (map ev_rel (key_events articles (u, v)))
     \<longleftrightarrow> 0 < ed_contributions articles u v"
  unfolding in_map_iff_filter editor_part_key_events ..

lemma coauthor_rel_iff:
  "''co_author'' \<in> set (map ev_rel (key_events articles (u, v)))
     \<longleftrightarrow> 0 < co_contributions articles u v"
  unfolding in_map_iff_filter coauthor_part_key_events ..

lemma edge_at_build_None_iff:
  "edge_at (build_partially_directed_graph articles) (u, v) = None
     \<longleftrightarrow> ed_contributions articles u v + co_contributions articles u v = 0"
proof -
  have "edge_at (build_partially_directed_graph articles) (u, v) = None
      \<longleftrightarrow> key_events articles (u, v) = []"
    by (simp add: edge_at_build_key_events split: list.splits)
  also have "\<dots> \<longleftrightarrow> length (key_events articles (u, v)) = 0"
    by simp
  finally show ?thesis
    by (simp only: length_key_events)
qed

lemma edge_at_build_Some:
  assumes "edge_at (build_partially_directed_graph articles) (u, v) = Some d"
  shows "relationship d = label_of (map ev_rel (key_events articles (u, v)))"
    and "issues d = map ev_issue (key_events articles (u, v))"
    and "titles d = map ev_title (key_events articles (u, v))"
    and "key_events articles (u, v) \<noteq> []"
  using assms
  by (auto simp: edge_at_build_key_events label_of_def split: list.splits)

lemma edge_at_build_lengths:
  assumes "edge_at (build_partially_directed_graph articles) (u, v) = Some d"
  shows "length (issues d) = ed_contributions articles u v + co_contributions articles u v"
    and "length (titles d) = ed_contributions articles u v + co_contributions articles u v"
  using edge_at_build_Some(2,3) [OF assms] by (simp_all add: length_key_events)

lemma edge_at_build_labels:
  assumes "edge_at (build_partially_directed_graph articles) (u, v) = Some d"
  shows "relationship d \<in> four_labels"
    and "str_in ''editor_to_author'' (relationship d) \<longleftrightarrow> 0 < ed_contributions articles u v"
    and "str_in ''co_author'' (relationship d) \<longleftrightarrow> 0 < co_contributions articles u v"
proof -
  note e = edge_at_build_Some [OF assms]
  have ne: "map ev_rel (key_events articles (u, v)) \<noteq> []"
    using e(4) by simp
  note l = label_of_four [OF ne rels_key_events]
  show "relationship d \<in> four_labels"
    unfolding e(1) by (rule l(1))
  show "str_in ''editor_to_author'' (relationship d) \<longleftrightarrow> 0 < ed_contributions articles u v"
    unfolding e(1) l(2) by (rule editor_rel_iff)
  show "str_in ''co_author'' (relationship d) \<longleftrightarrow> 0 < co_contributions articles u v"
    unfolding e(1) l(3) by (rule coauthor_rel_iff)
qed

lemma edge_at_build_occurrences:
  assumes "edge_at (build_partially_directed_graph articles) (u, v) = Some d"
  shows "occurrences ''editor_to_author'' (relationship d)
           = (if 0 < ed_contributions articles u v then 1 else 0)"
    and "occurrences ''co_author'' (relationship d)
           = (if 0 < co_contributions articles u v then 1 else 0)"
  using occurrences_four [OF edge_at_build_labels(1) [OF assms]]
    edge_at_build_labels(2,3) [OF assms]
  by simp_all

lemma edge_at_build_exists:
  assumes "0 < ed_contributions articles u v + co_contributions articles u v"
  shows "\<exists>d. edge_at (build_partially_directed_graph articles) (u, v) = Some d"
  using assms edge_at_build_None_iff [of articles u v] by (metis not_None_eq less_numeral_extra(3))

section \<open>Editor-author edges (claim C1)\<close>

lemma fold_label_step_absorbed:
  "(\<And>y. y \<in> set ys \<Longrightarrow> str_in y lbl) \<Longrightarrow> fold label_step ys lbl = lbl"
  by (induction ys) (simp_all add: label_step_def)

lemma editor_row_replicate:
  "filter (\<lambda>e. ev_key e = (u, v)) (map (\<lambda>au. (rel, iss, ttl, ed, au)) aus)
     = (if ed = u then replicate (count_list aus v) (rel, iss, ttl, u, v) else [])"
  by (induction aus) auto

lemma editor_events_replicate:
  "filter (\<lambda>e. ev_key e = (u, v)) (editor_events iss ttl eds aus)
     = replicate (count_list eds u * count_list aus v) (''editor_to_author'', iss, ttl, u, v)"
  unfolding editor_events_def
  by (induction eds) (simp_all add: editor_row_replicate replicate_add del: filter_map)

lemma key_events_editor_only:
  assumes "co_contributions articles u v = 0"
  shows "key_events articles (u, v)
     = map (\<lambda>r. (''editor_to_author'', issue_id_of r, get_or [] (title r), u, v))
         (ed_records articles u v)"
  using assms
proof (induction articles)
  case Nil
  show ?case by (simp add: ed_records_def)
next
  case (Cons r rs)
  from Cons.prems have r: "co_pairs (authors_of r) u v = 0" and rs: "co_contributions rs u v = 0"
    by (simp_all add: co_contributions_def)
  have "length (filter (\<lambda>e. ev_key e = (u, v))
      (coauthor_events (issue_id_of r) (get_or [] (title r)) (authors_of r))) = 0"
    by (simp only: count_coauthor_events r)
  then have co: "filter (\<lambda>e. ev_key e = (u, v))
      (coauthor_events (issue_id_of r) (get_or [] (title r)) (authors_of r)) = []"
    by (simp only: length_0_conv)
  have "filter (\<lambda>e. ev_key e = (u, v)) (entry_events r)
      = replicate (count_list (editors_of r) u * count_list (authors_of r) v)
          (''editor_to_author'', issue_id_of r, get_or [] (title r), u, v)"
    by (simp only: entry_events_def filter_append editor_events_replicate co append_Nil2)
  then show ?case
    by (simp only: key_events_Cons Cons.IH [OF rs]) (simp add: ed_records_def)
qed

lemma length_ed_records: "length (ed_records articles u v) = ed_contributions articles u v"
  by (induction articles) (simp_all add: ed_records_def ed_contributions_def)

lemma count_keys_distinct:
  "distinct (map fst m) \<Longrightarrow>
   length (filter (\<lambda>e. fst e = k) m) = (if k \<in> fst ` set m then 1 else 0)"
  by (induction m) (auto simp: image_iff)

lemma edge_at_in_keys: "edge_at G k = Some d \<Longrightarrow> k \<in> fst ` set (edges G)"
  unfolding edge_at_def by (metis map_of_eq_None_iff option.distinct(1))

lemma editor_edge_of_pair:
  assumes "0 < ed_contributions articles u v"
  shows "(\<exists>d. edge_at (build_partially_directed_graph articles) (u, v) = Some d
       \<and> length (filter (\<lambda>e. fst e = (u, v)) (edges (build_partially_directed_graph articles))) = 1
       \<and> occurrences ''editor_to_author'' (relationship d) = 1
       \<and> length (issues d) = ed_contributions articles u v + co_contributions articles u v
       \<and> length (titles d) = ed_contributions articles u v + co_contributions articles u v
       \<and> (co_contributions articles u v = 0 \<longrightarrow>
            d = \<lparr>relationship = ''editor_to_author'',
                 issues = map issue_id_of (ed_records articles u v),
                 titles = map (\<lambda>r. get_or [] (title r)) (ed_records articles u v)\<rparr>))"
proof -
  let ?G = "build_partially_directed_graph articles"
  have "0 < ed_contributions articles u v + co_contributions articles u v"
    using assms by simp
  then have "\<exists>d. edge_at ?G (u, v) = Some d"
    by (rule edge_at_build_exists)
  then obtain d where d: "edge_at ?G (u, v) = Some d" ..
  have one: "length (filter (\<lambda>e. fst e = (u, v)) (edges ?G)) = 1"
    using count_keys_distinct [OF distinct_edge_keys_build] edge_at_in_keys [OF d] by simp
  have occ: "occurrences ''editor_to_author'' (relationship d) = 1"
    using edge_at_build_occurrences(1) [OF d] assms by simp
  have only: "d = \<lparr>relationship = ''editor_to_author'',
                 issues = map issue_id_of (ed_records articles u v),
                 titles = map (\<lambda>r. get_or [] (title r)) (ed_records articles u v)\<rparr>"
    if co: "co_contributions articles u v = 0"
  proof -
    note k = key_events_editor_only [OF co]
    note e = edge_at_build_Some [OF d]
    obtain r rest where recs: "ed_records articles u v = r # rest"
      using e(4) unfolding k by (cases "ed_records articles u v") auto
    have "relationship d
        = fold label_step (map (\<lambda>r. ''editor_to_author'') rest) ''editor_to_author''"
      unfolding e(1) k recs by (simp add: label_of_def comp_def)
    also have "\<dots> = ''editor_to_author''"
      by (rule fold_label_step_absorbed) (auto simp only: set_map str_in_facts)
    finally have rel: "relationship d = ''editor_to_author''" .
    show ?thesis
      by (rule edge_data.equality) (simp_all add: rel e(2,3) k comp_def)
  qed
  note lens = edge_at_build_lengths [OF d]
  show ?thesis
  proof (intro conjI exI [of _ d] impI)
    show "edge_at ?G (u, v) = Some d" by (rule d)
    show "length (filter (\<lambda>e. fst e = (u, v)) (edges ?G)) = 1" by (rule one)
    show "occurrences ''editor_to_author'' (relationship d) = 1" by (rule occ)
    show "length (issues d) = ed_contributions articles u v + co_contributions articles u v"
      by (rule lens(1))
    show "length (titles d) = ed_contributions articles u v + co_contributions articles u v"
      by (rule lens(2))
    show "d = \<lparr>relationship = ''editor_to_author'',
                 issues = map issue_id_of (ed_records articles u v),
                 titles = map (\<lambda>r. get_or [] (title r)) (ed_records articles u v)\<rparr>"
      if "co_contributions articles u v = 0"
      using that by (rule only)
  qed
qed

text \<open>
  Claim C1, as it holds. For every record sequence the graph has at most one edge per
  ordered pair: the edge keys are distinct, so no key is the key of two edges. An ordered
  pair \<open>(u, v)\<close> with at least one editor-author contribution has its edge, the label of the
  edge contains \<^verbatim>\<open>editor_to_author\<close> exactly once, and the \<^verbatim>\<open>issues\<close> and \<^verbatim>\<open>titles\<close>
  lists each have as many entries as the pair has editor-author contributions and
  co-author contributions together (the two kinds of contribution share the lists). When
  the pair has no co-author contribution, the label is \<^verbatim>\<open>editor_to_author\<close> alone and the
  two lists hold the venues and the titles of the contributing records, in order, one
  entry per contributing (record, editor occurrence, author occurrence).
\<close>

theorem editor_edge_accumulates:
  "distinct (map fst (edges (build_partially_directed_graph articles)))
   \<and> (\<forall>k. length (filter (\<lambda>e. fst e = k) (edges (build_partially_directed_graph articles))) \<le> 1)
   \<and> (0 < ed_contributions articles u v \<longrightarrow>
        (\<exists>d. edge_at (build_partially_directed_graph articles) (u, v) = Some d
           \<and> length (filter (\<lambda>e. fst e = (u, v))
                 (edges (build_partially_directed_graph articles))) = 1
           \<and> occurrences ''editor_to_author'' (relationship d) = 1
           \<and> length (issues d) = ed_contributions articles u v + co_contributions articles u v
           \<and> length (titles d) = ed_contributions articles u v + co_contributions articles u v
           \<and> (co_contributions articles u v = 0 \<longrightarrow>
                d = \<lparr>relationship = ''editor_to_author'',
                     issues = map issue_id_of (ed_records articles u v),
                     titles = map (\<lambda>r. get_or [] (title r)) (ed_records articles u v)\<rparr>)))"
proof (intro conjI allI impI)
  show "distinct (map fst (edges (build_partially_directed_graph articles)))"
    by (rule distinct_edge_keys_build)
next
  fix k
  show "length (filter (\<lambda>e. fst e = k) (edges (build_partially_directed_graph articles))) \<le> 1"
    by (simp add: count_keys_distinct [OF distinct_edge_keys_build])
next
  assume "0 < ed_contributions articles u v"
  then show "\<exists>d. edge_at (build_partially_directed_graph articles) (u, v) = Some d
           \<and> length (filter (\<lambda>e. fst e = (u, v))
                 (edges (build_partially_directed_graph articles))) = 1
           \<and> occurrences ''editor_to_author'' (relationship d) = 1
           \<and> length (issues d) = ed_contributions articles u v + co_contributions articles u v
           \<and> length (titles d) = ed_contributions articles u v + co_contributions articles u v
           \<and> (co_contributions articles u v = 0 \<longrightarrow>
                d = \<lparr>relationship = ''editor_to_author'',
                     issues = map issue_id_of (ed_records articles u v),
                     titles = map (\<lambda>r. get_or [] (title r)) (ed_records articles u v)\<rparr>)"
    by (rule editor_edge_of_pair)
qed

theorem editor_edge_accumulates_witness:
  "0 < ed_contributions [edited_article, edited_article] ''ed'' ''bo'' \<and>
   edge_at (build_partially_directed_graph [edited_article, edited_article]) (''ed'', ''bo'')
     = Some \<lparr>relationship = ''editor_to_author'', issues = [''J :: S1'', ''J :: S1''],
             titles = [''T1'', ''T1'']\<rparr> \<and>
   length (filter (\<lambda>e. fst e = (''ed'', ''bo''))
     (edges (build_partially_directed_graph [edited_article, edited_article]))) = 1"
proof -
  have h: "0 < ed_contributions [edited_article, edited_article] ''ed'' ''bo''"
    by code_simp
  have co: "co_contributions [edited_article, edited_article] ''ed'' ''bo'' = 0"
    by code_simp
  have recs: "ed_records [edited_article, edited_article] ''ed'' ''bo''
      = [edited_article, edited_article]"
    by code_simp
  have vals: "map issue_id_of [edited_article, edited_article] = [''J :: S1'', ''J :: S1'']"
    "map (\<lambda>r. get_or [] (title r)) [edited_article, edited_article] = [''T1'', ''T1'']"
    by code_simp+
  note t = editor_edge_accumulates [of "[edited_article, edited_article]" "''ed''" "''bo''"]
  from t have "0 < ed_contributions [edited_article, edited_article] ''ed'' ''bo'' \<longrightarrow>
      (\<exists>d. edge_at (build_partially_directed_graph [edited_article, edited_article]) (''ed'', ''bo'')
              = Some d
         \<and> length (filter (\<lambda>e. fst e = (''ed'', ''bo''))
               (edges (build_partially_directed_graph [edited_article, edited_article]))) = 1
         \<and> occurrences ''editor_to_author'' (relationship d) = 1
         \<and> length (issues d) = ed_contributions [edited_article, edited_article] ''ed'' ''bo''
               + co_contributions [edited_article, edited_article] ''ed'' ''bo''
         \<and> length (titles d) = ed_contributions [edited_article, edited_article] ''ed'' ''bo''
               + co_contributions [edited_article, edited_article] ''ed'' ''bo''
         \<and> (co_contributions [edited_article, edited_article] ''ed'' ''bo'' = 0 \<longrightarrow>
              d = \<lparr>relationship = ''editor_to_author'',
                   issues = map issue_id_of (ed_records [edited_article, edited_article] ''ed'' ''bo''),
                   titles = map (\<lambda>r. get_or [] (title r))
                     (ed_records [edited_article, edited_article] ''ed'' ''bo'')\<rparr>))"
    by (elim conjE)
  from this [THEN mp, OF h] obtain d
    where d: "edge_at (build_partially_directed_graph [edited_article, edited_article]) (''ed'', ''bo'')
        = Some d"
      and one: "length (filter (\<lambda>e. fst e = (''ed'', ''bo''))
               (edges (build_partially_directed_graph [edited_article, edited_article]))) = 1"
      and v: "co_contributions [edited_article, edited_article] ''ed'' ''bo'' = 0 \<longrightarrow>
        d = \<lparr>relationship = ''editor_to_author'',
             issues = map issue_id_of (ed_records [edited_article, edited_article] ''ed'' ''bo''),
             titles = map (\<lambda>r. get_or [] (title r))
               (ed_records [edited_article, edited_article] ''ed'' ''bo'')\<rparr>"
    by (elim conjE exE)
  have "d = \<lparr>relationship = ''editor_to_author'', issues = [''J :: S1'', ''J :: S1''],
             titles = [''T1'', ''T1'']\<rparr>"
    using v co unfolding recs vals by (rule mp)
  with d have "edge_at (build_partially_directed_graph [edited_article, edited_article])
      (''ed'', ''bo'')
     = Some \<lparr>relationship = ''editor_to_author'', issues = [''J :: S1'', ''J :: S1''],
             titles = [''T1'', ''T1'']\<rparr>"
    by (simp only:)
  with h one show ?thesis by (intro conjI)
qed

text \<open>
  Claim C1 as stated counts the editor-author contributions only. In the record below the
  editor is also the first of two authors: the pair (ed, bo) has one editor-author
  contribution, and the co-author loop appends to the same edge, so the lists have two
  entries and the label is no longer \<^verbatim>\<open>editor_to_author\<close> alone.
\<close>

theorem editor_edge_counterexample:
  "ed_contributions [editor_coauthors_article] ''ed'' ''bo'' = 1 \<and>
   edge_at (build_partially_directed_graph [editor_coauthors_article]) (''ed'', ''bo'')
     = Some \<lparr>relationship = ''editor_to_author,co_author'', issues = [''J :: S2'', ''J :: S2''],
             titles = [''T2'', ''T2'']\<rparr>"
  by code_simp

section \<open>Co-author edges (claim C2)\<close>

lemma count_list_app: "count_list (xs @ ys) a = count_list xs a + count_list ys a"
  by (induction xs) simp_all

lemma count_list_pos: "a \<in> set xs \<Longrightarrow> 0 < count_list xs a"
  using count_list_0_iff [of xs a] by auto

lemma count_list_two:
  assumes "i < j" and "j < length xs" and "xs ! i = a" and "xs ! j = a"
  shows "2 \<le> count_list xs a"
proof -
  have xs: "xs = take j xs @ xs ! j # drop (Suc j) xs"
    using assms(2) by (rule id_take_nth_drop)
  have "take j xs ! i = a"
    using assms(1,3) by simp
  moreover have "i < length (take j xs)"
    using assms(1,2) by simp
  ultimately have "a \<in> set (take j xs)"
    using nth_mem by blast
  then have "0 < count_list (take j xs) a"
    by (rule count_list_pos)
  moreover have "count_list xs a
      = count_list (take j xs) a + count_list (xs ! j # drop (Suc j) xs) a"
    by (subst xs) (rule count_list_app)
  ultimately show ?thesis
    using assms(4) by simp
qed

lemma co_pairs_sym: "co_pairs aus u v = co_pairs aus v u"
  by (simp add: co_pairs_def mult.commute)

lemma co_contributions_sym: "co_contributions articles u v = co_contributions articles v u"
  by (simp add: co_contributions_def co_pairs_sym [of _ u v])

lemma co_pairs_pos:
  assumes "i < j" and "j < length aus"
  shows "0 < co_pairs aus (aus ! i) (aus ! j)"
proof (cases "aus ! i = aus ! j")
  case True
  have "2 \<le> count_list aus (aus ! i)"
    using assms True by (intro count_list_two [of i j]) simp_all
  then have "0 < count_list aus (aus ! i) * (count_list aus (aus ! i) - 1)"
    by simp
  then show ?thesis using True by (simp add: co_pairs_def)
next
  case False
  have "0 < count_list aus (aus ! i)" "0 < count_list aus (aus ! j)"
    using assms by (simp_all add: count_list_pos)
  then show ?thesis using False by (simp add: co_pairs_def)
qed

lemma co_pairs_pos_iff:
  "0 < co_pairs aus u v \<longleftrightarrow>
     (if u = v then 2 \<le> count_list aus u else u \<in> set aus \<and> v \<in> set aus)"
proof (cases "u = v")
  case True
  have "0 < c * (c - 1) \<longleftrightarrow> 2 \<le> c" for c :: nat
    by (cases c) auto
  then show ?thesis using True by (simp add: co_pairs_def)
next
  case False
  then show ?thesis
    using count_list_0_iff [of aus u] count_list_0_iff [of aus v]
    by (auto simp: co_pairs_def)
qed

lemma sum_list_pos_iff: "0 < sum_list (map f xs) \<longleftrightarrow> (\<exists>x \<in> set xs. 0 < (f x :: nat))"
  by (induction xs) auto

lemma co_contributions_pos:
  assumes "r \<in> set articles" and "0 < co_pairs (authors_of r) u v"
  shows "0 < co_contributions articles u v"
  unfolding co_contributions_def sum_list_pos_iff using assms by blast

lemma ed_contributions_pos_iff:
  "0 < ed_contributions articles u v
     \<longleftrightarrow> (\<exists>r \<in> set articles. u \<in> set (editors_of r) \<and> v \<in> set (authors_of r))"
  unfolding ed_contributions_def sum_list_pos_iff
  using count_list_0_iff [of _ u] count_list_0_iff [of _ v] by (auto simp: neq0_conv [symmetric] simp del: neq0_conv)

lemma co_contributions_pos_iff:
  "0 < co_contributions articles u v
     \<longleftrightarrow> (\<exists>r \<in> set articles. 0 < co_pairs (authors_of r) u v)"
  unfolding co_contributions_def by (rule sum_list_pos_iff)

lemma has_label_build:
  "has_label ''editor_to_author'' (build_partially_directed_graph articles) (u, v)
     \<longleftrightarrow> 0 < ed_contributions articles u v"
  "has_label ''co_author'' (build_partially_directed_graph articles) (u, v)
     \<longleftrightarrow> 0 < co_contributions articles u v"
proof -
  let ?G = "build_partially_directed_graph articles"
  show "has_label ''editor_to_author'' ?G (u, v) \<longleftrightarrow> 0 < ed_contributions articles u v"
  proof (cases "edge_at ?G (u, v)")
    case None
    then show ?thesis
      using edge_at_build_None_iff [of articles u v] by (simp add: has_label_def)
  next
    case (Some d)
    then show ?thesis
      using edge_at_build_labels(2) [OF Some] by (simp add: has_label_def)
  qed
  show "has_label ''co_author'' ?G (u, v) \<longleftrightarrow> 0 < co_contributions articles u v"
  proof (cases "edge_at ?G (u, v)")
    case None
    then show ?thesis
      using edge_at_build_None_iff [of articles u v] by (simp add: has_label_def)
  next
    case (Some d)
    then show ?thesis
      using edge_at_build_labels(3) [OF Some] by (simp add: has_label_def)
  qed
qed

lemma has_label_in_keys: "has_label l G k \<Longrightarrow> k \<in> fst ` set (edges G)"
  unfolding has_label_def by (auto split: option.splits dest: edge_at_in_keys)

lemma length_filter_disj:
  "(\<And>x. \<not> (P x \<and> Q x)) \<Longrightarrow>
   length (filter (\<lambda>x. P x \<or> Q x) xs) = length (filter P xs) + length (filter Q xs)"
  by (induction xs) auto

lemma count_two_keys:
  assumes "distinct (map fst m)" and "k1 \<in> fst ` set m" and "k2 \<in> fst ` set m"
  shows "length (filter (\<lambda>e. fst e = k1 \<or> fst e = k2) m) = (if k1 = k2 then 1 else 2)"
proof (cases "k1 = k2")
  case True
  then show ?thesis using count_keys_distinct [OF assms(1), of k1] assms(2) by simp
next
  case False
  then have "length (filter (\<lambda>e. fst e = k1 \<or> fst e = k2) m)
      = length (filter (\<lambda>e. fst e = k1) m) + length (filter (\<lambda>e. fst e = k2) m)"
    by (intro length_filter_disj) auto
  then show ?thesis
    using False count_keys_distinct [OF assms(1)] assms(2,3) by simp
qed


text \<open>
  Claim C2, as it holds. For every record and every two positions \<open>i < j\<close> of its author
  list, both directed edges between the two normalized names are in the built graph and
  carry \<^verbatim>\<open>co_author\<close>; they are exactly two edges when the names differ, and the single
  self-loop when the two entries normalize to the same name. In every built graph the edge
  \<open>u \<rightarrow> v\<close> carries \<^verbatim>\<open>co_author\<close> exactly when \<open>v \<rightarrow> u\<close> does, and \<open>u \<rightarrow> v\<close> carries
  \<^verbatim>\<open>editor_to_author\<close> exactly when some record has \<open>u\<close> among its editors and \<open>v\<close> among
  its authors: nothing is added in the opposite direction.
\<close>

theorem coauthor_edges_both_directions:
  "(\<forall>r \<in> set articles. \<forall>i j. i < j \<and> j < length (authors_of r) \<longrightarrow>
      has_label ''co_author'' (build_partially_directed_graph articles)
        (authors_of r ! i, authors_of r ! j) \<and>
      has_label ''co_author'' (build_partially_directed_graph articles)
        (authors_of r ! j, authors_of r ! i) \<and>
      length (filter (\<lambda>e. fst e = (authors_of r ! i, authors_of r ! j)
                         \<or> fst e = (authors_of r ! j, authors_of r ! i))
                (edges (build_partially_directed_graph articles)))
        = (if authors_of r ! i = authors_of r ! j then 1 else 2))
   \<and> (\<forall>u v. has_label ''co_author'' (build_partially_directed_graph articles) (u, v)
          \<longleftrightarrow> has_label ''co_author'' (build_partially_directed_graph articles) (v, u))
   \<and> (\<forall>u v. has_label ''editor_to_author'' (build_partially_directed_graph articles) (u, v)
          \<longleftrightarrow> (\<exists>r \<in> set articles. u \<in> set (editors_of r) \<and> v \<in> set (authors_of r)))"
proof (intro conjI ballI allI impI)
  let ?G = "build_partially_directed_graph articles"
  fix r i j
  assume r: "r \<in> set articles" and ij: "i < j \<and> j < length (authors_of r)"
  let ?a = "authors_of r ! i" and ?b = "authors_of r ! j"
  have "0 < co_pairs (authors_of r) ?a ?b"
    using ij by (intro co_pairs_pos) simp_all
  then have ab: "0 < co_contributions articles ?a ?b"
    by (rule co_contributions_pos [OF r])
  then have ba: "0 < co_contributions articles ?b ?a"
    by (simp only: co_contributions_sym [of articles ?b ?a])
  show 1: "has_label ''co_author'' ?G (?a, ?b)"
    unfolding has_label_build by (rule ab)
  show 2: "has_label ''co_author'' ?G (?b, ?a)"
    unfolding has_label_build by (rule ba)
  have "length (filter (\<lambda>e. fst e = (?a, ?b) \<or> fst e = (?b, ?a)) (edges ?G))
      = (if (?a, ?b) = (?b, ?a) then 1 else 2)"
    by (rule count_two_keys [OF distinct_edge_keys_build has_label_in_keys [OF 1]
          has_label_in_keys [OF 2]])
  then show "length (filter (\<lambda>e. fst e = (?a, ?b) \<or> fst e = (?b, ?a)) (edges ?G))
      = (if ?a = ?b then 1 else 2)"
    by (simp add: eq_commute)
next
  fix u v
  show "has_label ''co_author'' (build_partially_directed_graph articles) (u, v)
      \<longleftrightarrow> has_label ''co_author'' (build_partially_directed_graph articles) (v, u)"
    unfolding has_label_build by (simp only: co_contributions_sym [of articles u v])
next
  fix u v
  show "has_label ''editor_to_author'' (build_partially_directed_graph articles) (u, v)
      \<longleftrightarrow> (\<exists>r \<in> set articles. u \<in> set (editors_of r) \<and> v \<in> set (authors_of r))"
    unfolding has_label_build by (rule ed_contributions_pos_iff)
qed

theorem coauthor_edges_both_directions_witness:
  "has_label ''co_author'' (build_partially_directed_graph [three_authors_article]) (''xi'', ''zed'')
   \<and> has_label ''co_author'' (build_partially_directed_graph [three_authors_article]) (''zed'', ''xi'')
   \<and> length (filter (\<lambda>e. fst e = (''xi'', ''zed'') \<or> fst e = (''zed'', ''xi''))
               (edges (build_partially_directed_graph [three_authors_article]))) = 2
   \<and> has_label ''editor_to_author'' (build_partially_directed_graph [three_authors_article])
        (''ed'', ''xi'')
   \<and> \<not> has_label ''editor_to_author'' (build_partially_directed_graph [three_authors_article])
        (''xi'', ''ed'')"
proof -
  let ?G = "build_partially_directed_graph [three_authors_article]"
  note t = coauthor_edges_both_directions [of "[three_authors_article]"]
  have aus: "authors_of three_authors_article = [''xi'', ''yo'', ''zed'']"
    and eds: "editors_of three_authors_article = [''ed'']"
    by code_simp+
  have "three_authors_article \<in> set [three_authors_article]"
    and "(0 :: nat) < 2 \<and> 2 < length (authors_of three_authors_article)"
    by (simp_all add: aus)
  with t have "has_label ''co_author'' ?G
        (authors_of three_authors_article ! 0, authors_of three_authors_article ! 2) \<and>
      has_label ''co_author'' ?G
        (authors_of three_authors_article ! 2, authors_of three_authors_article ! 0) \<and>
      length (filter (\<lambda>e. fst e = (authors_of three_authors_article ! 0, authors_of three_authors_article ! 2)
                         \<or> fst e = (authors_of three_authors_article ! 2, authors_of three_authors_article ! 0))
                (edges ?G))
        = (if authors_of three_authors_article ! 0 = authors_of three_authors_article ! 2 then 1 else 2)"
    by blast
  then have co: "has_label ''co_author'' ?G (''xi'', ''zed'') \<and>
      has_label ''co_author'' ?G (''zed'', ''xi'') \<and>
      length (filter (\<lambda>e. fst e = (''xi'', ''zed'') \<or> fst e = (''zed'', ''xi'')) (edges ?G)) = 2"
    unfolding aus by simp
  from t have ed: "has_label ''editor_to_author'' ?G (u, v)
      \<longleftrightarrow> (\<exists>r \<in> set [three_authors_article]. u \<in> set (editors_of r) \<and> v \<in> set (authors_of r))"
    for u v by blast
  have "has_label ''editor_to_author'' ?G (''ed'', ''xi'')"
    unfolding ed by (simp add: aus eds)
  moreover have "\<not> has_label ''editor_to_author'' ?G (''xi'', ''ed'')"
    unfolding ed by (simp add: aus eds)
  ultimately show ?thesis using co by blast
qed

text \<open>
  Claim C2 as stated promises two edges for every pair of entries of an author list. The
  two author entries of the record below normalize to the same name, so the pair yields
  one edge, the self-loop, to which both passes of the loop body append.
\<close>

theorem coauthor_edges_counterexample:
  "authors_of listed_twice_article = [''ann'', ''ann''] \<and>
   edges (build_partially_directed_graph [listed_twice_article])
     = [((''ann'', ''ann''),
         \<lparr>relationship = ''co_author'', issues = [''J :: S3'', ''J :: S3''],
          titles = [''T3'', ''T3'']\<rparr>)]"
  by code_simp

section \<open>Building from the records twice (claim C7)\<close>

lemma totals_twice:
  "editor_total (articles @ articles) n = 2 * editor_total articles n"
  "author_total (articles @ articles) n = 2 * author_total articles n"
  by (simp_all add: editor_total_def author_total_def)

lemma node_keys_iff: "n \<in> set (map fst (nodes G)) \<longleftrightarrow> node_at G n \<noteq> None"
  unfolding node_at_def by (simp add: map_of_eq_None_iff)

lemma edge_keys_iff: "k \<in> set (map fst (edges G)) \<longleftrightarrow> edge_at G k \<noteq> None"
  unfolding edge_at_def by (simp add: map_of_eq_None_iff)

lemma label_of_contains:
  assumes "set rels \<subseteq> two_rels" and "y \<in> set rels"
  shows "str_in y (label_of rels)"
proof -
  have ne: "rels \<noteq> []" using assms(2) by auto
  note l = label_of_four [OF ne assms(1)]
  have "y \<in> two_rels" using assms by blast
  then have "y = ''editor_to_author'' \<or> y = ''co_author''"
    unfolding two_rels_def insert_iff empty_iff by blast
  then show ?thesis
  proof
    assume y: "y = ''editor_to_author''"
    show ?thesis using assms(2) unfolding y l(2) .
  next
    assume y: "y = ''co_author''"
    show ?thesis using assms(2) unfolding y l(3) .
  qed
qed

lemma label_of_twice:
  assumes "rels \<noteq> []" and "set rels \<subseteq> two_rels"
  shows "label_of (rels @ rels) = label_of rels"
proof -
  obtain r rest where rels: "rels = r # rest"
    using assms(1) by (cases rels) auto
  have "label_of (rels @ rels) = fold label_step rels (label_of rels)"
    by (simp add: label_of_def rels)
  also have "\<dots> = label_of rels"
    by (rule fold_label_step_absorbed) (rule label_of_contains [OF assms(2)])
  finally show ?thesis .
qed

text \<open>
  Claim C7: building the graph from a record sequence followed by itself gives the same
  node keys and the same edge keys as building it once; every node has both counts
  doubled, and every edge keeps its label and has its \<^verbatim>\<open>issues\<close> and \<^verbatim>\<open>titles\<close> lists
  twice as long (the list of the single build, twice).
\<close>

theorem build_twice_doubles:
  "set (map fst (nodes (build_partially_directed_graph (articles @ articles))))
     = set (map fst (nodes (build_partially_directed_graph articles)))
   \<and> set (map fst (edges (build_partially_directed_graph (articles @ articles))))
     = set (map fst (edges (build_partially_directed_graph articles)))
   \<and> (\<forall>n. case node_at (build_partially_directed_graph articles) n of
            None \<Rightarrow> node_at (build_partially_directed_graph (articles @ articles)) n = None
          | Some d \<Rightarrow>
              node_at (build_partially_directed_graph (articles @ articles)) n
                = Some (d\<lparr>editor_count := 2 * editor_count d,
                          author_count := 2 * author_count d\<rparr>))
   \<and> (\<forall>k. case edge_at (build_partially_directed_graph articles) k of
            None \<Rightarrow> edge_at (build_partially_directed_graph (articles @ articles)) k = None
          | Some d \<Rightarrow>
              (\<exists>d2. edge_at (build_partially_directed_graph (articles @ articles)) k = Some d2
                 \<and> relationship d2 = relationship d
                 \<and> issues d2 = issues d @ issues d
                 \<and> titles d2 = titles d @ titles d
                 \<and> length (issues d2) = 2 * length (issues d)
                 \<and> length (titles d2) = 2 * length (titles d)))"
proof -
  let ?G = "build_partially_directed_graph articles"
  let ?G2 = "build_partially_directed_graph (articles @ articles)"
  have node: "case node_at ?G n of
            None \<Rightarrow> node_at ?G2 n = None
          | Some d \<Rightarrow> node_at ?G2 n
                = Some (d\<lparr>editor_count := 2 * editor_count d, author_count := 2 * author_count d\<rparr>)"
    for n
    by (simp add: node_at_build totals_twice)
  have edge: "case edge_at ?G k of
            None \<Rightarrow> edge_at ?G2 k = None
          | Some d \<Rightarrow>
              (\<exists>d2. edge_at ?G2 k = Some d2
                 \<and> relationship d2 = relationship d
                 \<and> issues d2 = issues d @ issues d
                 \<and> titles d2 = titles d @ titles d
                 \<and> length (issues d2) = 2 * length (issues d)
                 \<and> length (titles d2) = 2 * length (titles d))"
    for k
  proof (cases "key_events articles k")
    case Nil
    then show ?thesis
      by (simp add: edge_at_build_key_events key_events_append)
  next
    case (Cons e rest)
    obtain u v where k: "k = (u, v)" by (cases k)
    have ne: "map ev_rel (key_events articles k) \<noteq> []"
      using Cons by simp
    have l: "label_of (map ev_rel (key_events articles k) @ map ev_rel (key_events articles k))
        = label_of (map ev_rel (key_events articles k))"
      using ne rels_key_events by (rule label_of_twice)
    have 1: "edge_at ?G k = Some \<lparr>relationship = label_of (map ev_rel (key_events articles k)),
        issues = map ev_issue (key_events articles k),
        titles = map ev_title (key_events articles k)\<rparr>"
      using Cons by (simp add: edge_at_build_key_events label_of_def)
    have "key_events (articles @ articles) k = e # (rest @ e # rest)"
      by (simp add: key_events_append Cons)
    then have 2: "edge_at ?G2 k = Some \<lparr>relationship
          = label_of (map ev_rel (key_events articles k) @ map ev_rel (key_events articles k)),
        issues = map ev_issue (key_events articles k) @ map ev_issue (key_events articles k),
        titles = map ev_title (key_events articles k) @ map ev_title (key_events articles k)\<rparr>"
      by (simp add: edge_at_build_key_events label_of_def Cons)
    show ?thesis
      unfolding 1 2 l by simp
  qed
  have nodes: "set (map fst (nodes ?G2)) = set (map fst (nodes ?G))"
  proof (rule set_eqI)
    fix n
    show "n \<in> set (map fst (nodes ?G2)) \<longleftrightarrow> n \<in> set (map fst (nodes ?G))"
      unfolding node_keys_iff using node [of n] by (cases "node_at ?G n") simp_all
  qed
  have edges: "set (map fst (edges ?G2)) = set (map fst (edges ?G))"
  proof (rule set_eqI)
    fix k
    show "k \<in> set (map fst (edges ?G2)) \<longleftrightarrow> k \<in> set (map fst (edges ?G))"
      unfolding edge_keys_iff using edge [of k] by (cases "edge_at ?G k") auto
  qed
  show ?thesis
    using nodes edges node edge by (intro conjI allI)
qed

theorem build_twice_doubles_witness:
  "node_at (build_partially_directed_graph [editor_coauthors_article]) ''ed''
     = Some \<lparr>name = ''ed'', editor_count = 1, author_count = 1\<rparr>
   \<and> node_at (build_partially_directed_graph [editor_coauthors_article, editor_coauthors_article]) ''ed''
     = Some \<lparr>name = ''ed'', editor_count = 2, author_count = 2\<rparr>"
proof -
  have 1: "node_at (build_partially_directed_graph [editor_coauthors_article]) ''ed''
     = Some \<lparr>name = ''ed'', editor_count = 1, author_count = 1\<rparr>"
    by code_simp
  from build_twice_doubles [of "[editor_coauthors_article]"]
  have "case node_at (build_partially_directed_graph [editor_coauthors_article]) ''ed'' of
            None \<Rightarrow> node_at (build_partially_directed_graph
                ([editor_coauthors_article] @ [editor_coauthors_article])) ''ed'' = None
          | Some d \<Rightarrow>
              node_at (build_partially_directed_graph
                ([editor_coauthors_article] @ [editor_coauthors_article])) ''ed''
                = Some (d\<lparr>editor_count := 2 * editor_count d,
                          author_count := 2 * author_count d\<rparr>)"
    by blast
  then show ?thesis unfolding 1 by simp
qed

section \<open>Well-formed graphs\<close>

lemma set_edges_view:
  assumes "list_all (\<lambda>e. has_node G (fst (fst e)) \<and> has_node G (snd (fst e))) (edges G)"
  shows "set (edges_view G) = set (edges G)"
  using assms unfolding edges_view_def has_node_def has_key_def list_all_iff by auto

lemma distinct_concat_groups:
  assumes "distinct ns" and "distinct ks"
  shows "distinct (concat (map (\<lambda>n. filter (\<lambda>k. g k = n) ks) ns))"
  using assms(1)
proof (induction ns)
  case Nil
  show ?case by simp
next
  case (Cons n ns)
  then have "n \<notin> set ns" and "distinct ns" by simp_all
  then show ?case
    using Cons.IH assms(2) by auto
qed

lemma keys_edges_view:
  "map fst (edges_view G)
     = concat (map (\<lambda>n. filter (\<lambda>k. fst k = n) (map fst (edges G))) (map fst (nodes G)))"
  unfolding edges_view_def map_concat
  by (simp add: comp_def filter_map)

lemma distinct_edges_view:
  assumes "well_formed G"
  shows "distinct (map fst (edges_view G))"
  unfolding keys_edges_view
  using assms unfolding well_formed_def by (intro distinct_concat_groups) simp_all

lemma edges_view_lookup:
  assumes "well_formed G"
  shows "map_of (edges_view G) k = edge_at G k"
proof -
  have "set (edges_view G) = set (edges G)"
    using assms unfolding well_formed_def by (intro set_edges_view) simp
  moreover have "distinct (map fst (edges G))"
    using assms unfolding well_formed_def by simp
  ultimately have "map_of (edges_view G) = map_of (edges G)"
    using distinct_edges_view [OF assms] by (simp add: map_of_inject_set)
  then show ?thesis by (simp add: edge_at_def)
qed

lemma filter_key_distinct:
  "distinct (map fst m) \<Longrightarrow>
   filter (\<lambda>e. fst e = k) m = (case map_of m k of None \<Rightarrow> [] | Some d \<Rightarrow> [(k, d)])"
proof (induction m)
  case Nil
  show ?case by simp
next
  case (Cons e m)
  obtain k' d' where e: "e = (k', d')" by (cases e)
  show ?case
  proof (cases "k' = k")
    case True
    then have "k \<notin> fst ` set m" using Cons.prems e by auto
    then have "map_of m k = None" by (simp add: map_of_eq_None_iff)
    then show ?thesis using Cons e True by simp
  next
    case False
    then show ?thesis using Cons e by simp
  qed
qed

lemma edges_view_filter_key:
  assumes "well_formed G"
  shows "filter (\<lambda>e. fst e = k) (edges_view G)
     = (case edge_at G k of None \<Rightarrow> [] | Some d \<Rightarrow> [(k, d)])"
  using filter_key_distinct [OF distinct_edges_view [OF assms], of k]
  by (simp add: edges_view_lookup [OF assms])

section \<open>Built graphs are well-formed\<close>

lemma co_contributions_authors:
  assumes "0 < co_contributions articles u v"
  shows "\<exists>r \<in> set articles. u \<in> set (authors_of r) \<and> v \<in> set (authors_of r)"
proof -
  from assms obtain r where r: "r \<in> set articles" and p: "0 < co_pairs (authors_of r) u v"
    unfolding co_contributions_pos_iff by blast
  have "u \<in> set (authors_of r) \<and> v \<in> set (authors_of r)"
  proof (cases "u = v")
    case True
    with p have "2 \<le> count_list (authors_of r) u"
      by (simp add: co_pairs_pos_iff)
    then have "count_list (authors_of r) u \<noteq> 0" by simp
    then have "u \<in> set (authors_of r)"
      by (simp add: count_list_0_iff)
    then show ?thesis using True by simp
  next
    case False
    with p show ?thesis by (simp add: co_pairs_pos_iff)
  qed
  with r show ?thesis by blast
qed

lemma has_node_build:
  "has_node (build_partially_directed_graph articles) n
     \<longleftrightarrow> (\<exists>r \<in> set articles. n \<in> set (editors_of r) \<or> n \<in> set (authors_of r))"
proof -
  have "has_node (build_partially_directed_graph articles) n
      \<longleftrightarrow> 0 < editor_total articles n + author_total articles n"
    unfolding has_node_def has_key_def node_keys_iff by (simp add: node_at_build)
  also have "\<dots> \<longleftrightarrow> (\<exists>r \<in> set articles. n \<in> set (editors_of r) \<or> n \<in> set (authors_of r))"
    unfolding editor_total_def author_total_def add_gr_0 sum_list_pos_iff
    using count_list_0_iff [of _ n] by (auto simp: neq0_conv [symmetric] simp del: neq0_conv)
  finally show ?thesis .
qed

lemma well_formed_build: "well_formed (build_partially_directed_graph articles)"
proof -
  let ?G = "build_partially_directed_graph articles"
  have "has_node ?G (fst (fst e)) \<and> has_node ?G (snd (fst e))" if e: "e \<in> set (edges ?G)" for e
  proof -
    obtain u v where k: "fst e = (u, v)" by (cases "fst e")
    have "(u, v) \<in> set (map fst (edges ?G))"
      using e k by (metis image_eqI set_map)
    then have "edge_at ?G (u, v) \<noteq> None"
      unfolding edge_keys_iff .
    then have "0 < ed_contributions articles u v + co_contributions articles u v"
      using edge_at_build_None_iff [of articles u v] by simp
    then have "0 < ed_contributions articles u v \<or> 0 < co_contributions articles u v"
      by simp
    then have "\<exists>r \<in> set articles. (u \<in> set (editors_of r) \<or> u \<in> set (authors_of r))
         \<and> (v \<in> set (editors_of r) \<or> v \<in> set (authors_of r))"
      using ed_contributions_pos_iff [of articles u v] co_contributions_authors [of articles u v]
      by blast
    then show ?thesis
      unfolding k fst_conv snd_conv has_node_build by blast
  qed
  then show ?thesis
    unfolding well_formed_def list_all_iff
    using distinct_node_keys_build distinct_edge_keys_build by blast
qed

section \<open>Self-overlap (claim C3)\<close>

lemma roles_at_add_role:
  "roles_at (add_role p i r m) p' i'
     = (if p' = p \<and> i' = i then insert r (roles_at m p i) else roles_at m p' i')"
  by (auto simp: roles_at_def add_role_def map_of_setdefault_then get_or_def
        split: option.splits)

lemma list_all_modify:
  "list_all P m \<Longrightarrow> (\<And>v. P (k, v) \<Longrightarrow> P (k, f v)) \<Longrightarrow> list_all P (modify k f m)"
  by (induction m) (auto simp: modify_def)

lemma dict_of_dicts_add_role:
  assumes "dict_of_dicts m"
  shows "dict_of_dicts (add_role p i r m)"
proof -
  have d: "distinct (map fst (add_role p i r m))"
    using assms unfolding dict_of_dicts_def add_role_def by (simp add: distinct_setdefault_then)
  have "list_all (\<lambda>e. distinct (map fst (snd e))) (add_role p i r m)"
  proof (cases "has_key m p")
    case True
    then show ?thesis
      using assms unfolding dict_of_dicts_def add_role_def setdefault_then_def [of p]
      by (auto intro!: list_all_modify simp: distinct_setdefault_then)
  next
    case False
    then show ?thesis
      using assms unfolding dict_of_dicts_def add_role_def setdefault_then_def [of p]
      by (simp add: setdefault_then_def has_key_def)
  qed
  with d show ?thesis by (simp add: dict_of_dicts_def)
qed

lemma person_issue_roles_scan: "person_issue_roles G = fold scan_edge (edges_view G) []"
  by (simp add: person_issue_roles_def scan_edge_def)

lemma roles_at_issues:
  "roles_at (fold (\<lambda>iss m. add_role v iss ''author'' (add_role u iss ''editor'' m)) is m) p i
     = roles_at m p i
       \<union> (if p = u \<and> i \<in> set is then {''editor''} else {})
       \<union> (if p = v \<and> i \<in> set is then {''author''} else {})"
  by (induction "is" arbitrary: m) (auto simp: roles_at_add_role)

lemma dict_of_dicts_issues:
  "dict_of_dicts m \<Longrightarrow>
   dict_of_dicts (fold (\<lambda>iss m. add_role v iss ''author'' (add_role u iss ''editor'' m)) is m)"
  by (induction "is" arbitrary: m) (simp_all add: dict_of_dicts_add_role)

lemma roles_at_scan_edge:
  "roles_at (scan_edge e m) p i
     = roles_at m p i
       \<union> (if fst (fst e) = p \<and> str_in ''editor_to_author'' (relationship (snd e))
              \<and> i \<in> set (issues (snd e)) then {''editor''} else {})
       \<union> (if snd (fst e) = p \<and> str_in ''editor_to_author'' (relationship (snd e))
              \<and> i \<in> set (issues (snd e)) then {''author''} else {})"
proof -
  obtain u v d where e: "e = ((u, v), d)" by (metis surj_pair)
  show ?thesis
    unfolding e scan_edge_def by (simp add: roles_at_issues)
qed

lemma dict_of_dicts_scan_edge: "dict_of_dicts m \<Longrightarrow> dict_of_dicts (scan_edge e m)"
proof -
  obtain u v d where e: "e = ((u, v), d)" by (metis surj_pair)
  show "dict_of_dicts m \<Longrightarrow> dict_of_dicts (scan_edge e m)"
    unfolding e scan_edge_def by (simp add: dict_of_dicts_issues)
qed

lemma roles_at_scan:
  "roles_at (fold scan_edge es m) p i
     = roles_at m p i
       \<union> (if list_ex (\<lambda>e. fst (fst e) = p \<and> str_in ''editor_to_author'' (relationship (snd e))
              \<and> i \<in> set (issues (snd e))) es then {''editor''} else {})
       \<union> (if list_ex (\<lambda>e. snd (fst e) = p \<and> str_in ''editor_to_author'' (relationship (snd e))
              \<and> i \<in> set (issues (snd e))) es then {''author''} else {})"
proof (induction es arbitrary: m)
  case Nil
  show ?case by simp
next
  case (Cons e es)
  show ?case
    by (simp add: Cons.IH roles_at_scan_edge) blast
qed

lemma dict_of_dicts_scan: "dict_of_dicts m \<Longrightarrow> dict_of_dicts (fold scan_edge es m)"
  by (induction es arbitrary: m) (simp_all add: dict_of_dicts_scan_edge)

lemma roles_at_person_issue_roles:
  "roles_at (person_issue_roles G) p i
     = (if editor_at G p i then {''editor''} else {}) \<union> (if author_at G p i then {''author''} else {})"
  unfolding person_issue_roles_scan roles_at_scan editor_at_def author_at_def
  by (simp add: roles_at_def)

lemma dict_of_dicts_person_issue_roles: "dict_of_dicts (person_issue_roles G)"
  unfolding person_issue_roles_scan
  by (rule dict_of_dicts_scan) (simp add: dict_of_dicts_def)


lemma count_inner_entries:
  assumes "distinct (map fst d)"
  shows "length (filter (\<lambda>s. person s = p \<and> issue s = i)
      (concat (map (\<lambda>(iss, roles). if Q roles then [\<lparr>person = q, issue = iss\<rparr>] else []) d)))
     = (if q = p \<and> (case map_of d i of None \<Rightarrow> False | Some roles \<Rightarrow> Q roles) then 1 else 0)"
  using assms
proof (induction d)
  case Nil
  show ?case by simp
next
  case (Cons e d)
  obtain iss roles where e: "e = (iss, roles)" by (cases e)
  show ?case
  proof (cases "iss = i")
    case True
    then have "i \<notin> fst ` set d" using Cons.prems e by auto
    then have "map_of d i = None" by (simp add: map_of_eq_None_iff)
    then show ?thesis using Cons e True by simp
  next
    case False
    then show ?thesis using Cons e by simp
  qed
qed

lemma count_entries:
  assumes "dict_of_dicts m"
  shows "length (filter (\<lambda>s. person s = p \<and> issue s = i)
      (concat (map (\<lambda>(q, d).
         concat (map (\<lambda>(iss, roles). if Q roles then [\<lparr>person = q, issue = iss\<rparr>] else []) d)) m)))
     = (if (case map_of m p of None \<Rightarrow> False
            | Some d \<Rightarrow> (case map_of d i of None \<Rightarrow> False | Some roles \<Rightarrow> Q roles))
        then 1 else 0)"
  using assms
proof (induction m)
  case Nil
  show ?case by simp
next
  case (Cons e m)
  obtain q d where e: "e = (q, d)" by (cases e)
  have m: "dict_of_dicts m" and d: "distinct (map fst d)" and q: "q \<notin> fst ` set m"
    using Cons.prems e by (auto simp: dict_of_dicts_def)
  show ?case
  proof (cases "q = p")
    case True
    then have none: "map_of m p = None" using q by (simp add: map_of_eq_None_iff)
    show ?thesis
      using True by (simp add: e Cons.IH [OF m] none count_inner_entries [OF d])
  next
    case False
    then show ?thesis
      by (simp add: e Cons.IH [OF m] count_inner_entries [OF d])
  qed
qed

lemma count_suspicious_self:
  assumes "dict_of_dicts m"
  shows "length (filter (\<lambda>s. person s = p \<and> issue s = i) (suspicious_self m))
     = (if ''editor'' \<in> roles_at m p i \<and> ''author'' \<in> roles_at m p i then 1 else 0)"
proof -
  have "(case map_of m p of None \<Rightarrow> False
         | Some d \<Rightarrow> (case map_of d i of None \<Rightarrow> False
             | Some roles \<Rightarrow> ''editor'' \<in> roles \<and> ''author'' \<in> roles))
      \<longleftrightarrow> ''editor'' \<in> roles_at m p i \<and> ''author'' \<in> roles_at m p i"
    by (simp add: roles_at_def split: option.splits)
  then show ?thesis
    unfolding suspicious_self_def
    using count_entries [OF assms, of p i "\<lambda>roles. ''editor'' \<in> roles \<and> ''author'' \<in> roles"]
    by simp
qed

text \<open>
  Claim C3: in the output of the detector, the number of self-overlap records for a person
  \<open>p\<close> and a venue \<open>i\<close> is exactly one when \<open>p\<close> holds both roles at \<open>i\<close> (over the edges
  whose label contains \<^verbatim>\<open>editor_to_author\<close> and the venues in their \<^verbatim>\<open>issues\<close> lists),
  and zero otherwise; how many edges or list entries gave \<open>p\<close> the two roles does not
  matter.
\<close>

theorem self_overlap_once:
  "length (filter (\<lambda>s. person s = p \<and> issue s = i)
      (self_overlap (detect_suspicious_patterns G)))
     = (if editor_at G p i \<and> author_at G p i then 1 else 0)"
proof -
  have ne: "''editor'' \<noteq> ''author''" by simp
  have "''editor'' \<in> roles_at (person_issue_roles G) p i \<longleftrightarrow> editor_at G p i"
    "''author'' \<in> roles_at (person_issue_roles G) p i \<longleftrightarrow> author_at G p i"
    unfolding roles_at_person_issue_roles using ne by auto
  then show ?thesis
    unfolding detect_suspicious_patterns_def
    using count_suspicious_self [OF dict_of_dicts_person_issue_roles, of p i G]
    by simp
qed


theorem self_overlap_once_witness:
  "editor_at (build_partially_directed_graph [self_edited_article, self_edited_article])
     ''ed'' ''J :: S5''
   \<and> author_at (build_partially_directed_graph [self_edited_article, self_edited_article])
     ''ed'' ''J :: S5''
   \<and> length (filter (\<lambda>s. person s = ''ed'' \<and> issue s = ''J :: S5'')
        (self_overlap (detect_suspicious_patterns
           (build_partially_directed_graph [self_edited_article, self_edited_article])))) = 1"
proof -
  have e: "editor_at (build_partially_directed_graph [self_edited_article, self_edited_article])
     ''ed'' ''J :: S5''"
    by code_simp
  have a: "author_at (build_partially_directed_graph [self_edited_article, self_edited_article])
     ''ed'' ''J :: S5''"
    by code_simp
  show ?thesis
    using self_overlap_once
      [of "''ed''" "''J :: S5''"
          "build_partially_directed_graph [self_edited_article, self_edited_article]"]
      e a
    by simp
qed

section \<open>Reciprocal editing (claim C4)\<close>

lemma ed_au_map_collect: "ed_au_map G = fold collect_edge (edges_view G) []"
  by (simp add: ed_au_map_def collect_edge_def)

lemma map_of_append_issues:
  "map_of (fold (\<lambda>iss m. setdefault_then k [] (\<lambda>l. l @ [iss]) m) is m) k'
     = (if k' = k \<and> is \<noteq> [] then Some (get_or [] (map_of m k) @ is) else map_of m k')"
  by (induction "is" arbitrary: m) (auto simp: map_of_setdefault_then get_or_def)

lemma distinct_append_issues:
  "distinct (map fst m) \<Longrightarrow>
   distinct (map fst (fold (\<lambda>iss m. setdefault_then k [] (\<lambda>l. l @ [iss]) m) is m))"
  by (induction "is" arbitrary: m) (simp_all add: distinct_setdefault_then)

lemma map_of_collect_edge:
  "map_of (collect_edge e m) k
     = (if fst e = k \<and> str_in ''editor_to_author'' (relationship (snd e)) \<and> issues (snd e) \<noteq> []
        then Some (get_or [] (map_of m k) @ issues (snd e)) else map_of m k)"
proof -
  obtain u v d where e: "e = ((u, v), d)" by (metis surj_pair)
  show ?thesis
    unfolding e collect_edge_def by (simp add: map_of_append_issues)
qed

lemma distinct_collect_edge:
  "distinct (map fst m) \<Longrightarrow> distinct (map fst (collect_edge e m))"
proof -
  obtain u v d where e: "e = ((u, v), d)" by (metis surj_pair)
  show "distinct (map fst m) \<Longrightarrow> distinct (map fst (collect_edge e m))"
    unfolding e collect_edge_def by (simp add: distinct_append_issues)
qed

lemma distinct_fold_collect_edge:
  "distinct (map fst m) \<Longrightarrow> distinct (map fst (fold collect_edge es m))"
  by (induction es arbitrary: m) (simp_all add: distinct_collect_edge)

lemma distinct_ed_au_map: "distinct (map fst (ed_au_map G))"
  unfolding ed_au_map_collect by (rule distinct_fold_collect_edge) simp

lemma map_of_fold_collect_edge_other:
  "(\<And>e. e \<in> set es \<Longrightarrow> fst e \<noteq> k) \<Longrightarrow> map_of (fold collect_edge es m) k = map_of m k"
  by (induction es arbitrary: m) (simp_all add: map_of_collect_edge)

lemma map_of_fold_collect_edge:
  assumes "distinct (map fst es)"
  shows "map_of (fold collect_edge es []) k
     = (case map_of es k of None \<Rightarrow> None
        | Some d \<Rightarrow> if str_in ''editor_to_author'' (relationship d) \<and> issues d \<noteq> []
                    then Some (issues d) else None)"
proof -
  have "map_of (fold collect_edge es m) k
     = (case map_of es k of None \<Rightarrow> map_of m k
        | Some d \<Rightarrow> if str_in ''editor_to_author'' (relationship d) \<and> issues d \<noteq> []
                    then Some (get_or [] (map_of m k) @ issues d) else map_of m k)" for m
    using assms
  proof (induction es arbitrary: m)
    case Nil
    show ?case by simp
  next
    case (Cons e es)
    obtain k' d' where e: "e = (k', d')" by (cases e)
    have es: "distinct (map fst es)" and k': "k' \<notin> fst ` set es"
      using Cons.prems e by auto
    show ?case
    proof (cases "k' = k")
      case True
      have other: "map_of (fold collect_edge es m') k = map_of m' k" for m'
        by (rule map_of_fold_collect_edge_other) (use k' True in auto)
      show ?thesis
        using True by (simp add: e other map_of_collect_edge split: option.splits)
    next
      case False
      then have c: "map_of (collect_edge (k', d') m) k = map_of m k"
        by (simp add: map_of_collect_edge)
      show ?thesis
        using False by (simp add: e Cons.IH [OF es] c split: option.splits)
    qed
  qed
  from this [of "[]"] show ?thesis
    by (simp add: get_or_def split: option.splits)
qed

lemma map_of_ed_au_map:
  assumes "well_formed G"
  shows "map_of (ed_au_map G) k
     = (case edge_at G k of None \<Rightarrow> None
        | Some d \<Rightarrow> if str_in ''editor_to_author'' (relationship d) \<and> issues d \<noteq> []
                    then Some (issues d) else None)"
  unfolding ed_au_map_collect
  using map_of_fold_collect_edge [OF distinct_edges_view [OF assms], of k]
  by (simp only: edges_view_lookup [OF assms])

lemma filter_recip:
  assumes "distinct (map fst m)"
  shows "filter (\<lambda>r. personA r = u \<and> personB r = v)
      (concat (map (\<lambda>((a, b), issues_ab).
         case map_of m0 (b, a) of None \<Rightarrow> []
         | Some issues_ba \<Rightarrow> [\<lparr>personA = a, personB = b, issues_A_ed_B_auth = issues_ab,
                                issues_B_ed_A_auth = issues_ba\<rparr>]) m))
     = (case map_of m (u, v) of None \<Rightarrow> []
        | Some issues_uv \<Rightarrow>
            (case map_of m0 (v, u) of None \<Rightarrow> []
             | Some issues_vu \<Rightarrow> [\<lparr>personA = u, personB = v, issues_A_ed_B_auth = issues_uv,
                                    issues_B_ed_A_auth = issues_vu\<rparr>]))"
  using assms
proof (induction m)
  case Nil
  show ?case by simp
next
  case (Cons e m)
  obtain a b iss where e: "e = ((a, b), iss)" by (metis surj_pair)
  have m: "distinct (map fst m)" and k: "(a, b) \<notin> fst ` set m"
    using Cons.prems e by auto
  show ?case
  proof (cases "(a, b) = (u, v)")
    case True
    then have "map_of m (u, v) = None" using k by (simp add: map_of_eq_None_iff)
    then show ?thesis
      using True by (simp add: e Cons.IH [OF m] split: option.splits)
  next
    case False
    then show ?thesis
      by (auto simp add: e Cons.IH [OF m] split: option.splits)
  qed
qed

lemma filter_suspicious_recip:
  assumes "well_formed G"
  shows "filter (\<lambda>r. personA r = u \<and> personB r = v) (suspicious_recip (ed_au_map G))
     = (case map_of (ed_au_map G) (u, v) of None \<Rightarrow> []
        | Some issues_uv \<Rightarrow>
            (case map_of (ed_au_map G) (v, u) of None \<Rightarrow> []
             | Some issues_vu \<Rightarrow> [\<lparr>personA = u, personB = v, issues_A_ed_B_auth = issues_uv,
                                    issues_B_ed_A_auth = issues_vu\<rparr>]))"
  unfolding suspicious_recip_def by (rule filter_recip [OF distinct_ed_au_map])


text \<open>
  Claim C4: when the graph has the edges \<open>A \<rightarrow> B\<close> and \<open>B \<rightarrow> A\<close> between two distinct
  people, both with \<^verbatim>\<open>editor_to_author\<close> in the label, the first with venues \<open>[V1]\<close> and
  the second with venues \<open>[V2]\<close>, the detector emits the record (A, B, [V1], [V2]) and the
  record (B, A, [V2], [V1]), each once, and no other record for the two of them: two
  records for the pair.
\<close>

theorem reciprocal_both_orderings:
  assumes "well_formed G" and "A \<noteq> B"
    and "edge_at G (A, B) = Some dAB" and "str_in ''editor_to_author'' (relationship dAB)"
    and "issues dAB = [V1]"
    and "edge_at G (B, A) = Some dBA" and "str_in ''editor_to_author'' (relationship dBA)"
    and "issues dBA = [V2]"
  shows "filter (\<lambda>r. personA r = A \<and> personB r = B) (reciprocal (detect_suspicious_patterns G))
       = [\<lparr>personA = A, personB = B, issues_A_ed_B_auth = [V1], issues_B_ed_A_auth = [V2]\<rparr>]
     \<and> filter (\<lambda>r. personA r = B \<and> personB r = A) (reciprocal (detect_suspicious_patterns G))
       = [\<lparr>personA = B, personB = A, issues_A_ed_B_auth = [V2], issues_B_ed_A_auth = [V1]\<rparr>]
     \<and> length (filter (\<lambda>r. {personA r, personB r} = {A, B})
          (reciprocal (detect_suspicious_patterns G))) = 2"
proof -
  let ?R = "reciprocal (detect_suspicious_patterns G)"
  have R: "?R = suspicious_recip (ed_au_map G)"
    by (simp add: detect_suspicious_patterns_def)
  have ab: "map_of (ed_au_map G) (A, B) = Some [V1]"
    using assms(3,4,5) by (simp add: map_of_ed_au_map [OF assms(1)])
  have ba: "map_of (ed_au_map G) (B, A) = Some [V2]"
    using assms(6,7,8) by (simp add: map_of_ed_au_map [OF assms(1)])
  have 1: "filter (\<lambda>r. personA r = A \<and> personB r = B) ?R
       = [\<lparr>personA = A, personB = B, issues_A_ed_B_auth = [V1], issues_B_ed_A_auth = [V2]\<rparr>]"
    unfolding R filter_suspicious_recip [OF assms(1)] by (simp add: ab ba)
  have 2: "filter (\<lambda>r. personA r = B \<and> personB r = A) ?R
       = [\<lparr>personA = B, personB = A, issues_A_ed_B_auth = [V2], issues_B_ed_A_auth = [V1]\<rparr>]"
    unfolding R filter_suspicious_recip [OF assms(1)] by (simp add: ab ba)
  have "filter (\<lambda>r. {personA r, personB r} = {A, B}) ?R
      = filter (\<lambda>r. (personA r = A \<and> personB r = B) \<or> (personA r = B \<and> personB r = A)) ?R"
    by (rule filter_cong) (auto simp: doubleton_eq_iff)
  moreover have "length (filter (\<lambda>r. (personA r = A \<and> personB r = B)
        \<or> (personA r = B \<and> personB r = A)) ?R)
      = length (filter (\<lambda>r. personA r = A \<and> personB r = B) ?R)
        + length (filter (\<lambda>r. personA r = B \<and> personB r = A) ?R)"
    by (rule length_filter_disj) (use assms(2) in auto)
  ultimately have 3: "length (filter (\<lambda>r. {personA r, personB r} = {A, B}) ?R) = 2"
    by (simp only: 1 2) simp
  show ?thesis
    using 1 2 3 by (intro conjI)
qed

theorem reciprocal_both_orderings_witness:
  "reciprocal (detect_suspicious_patterns
     (build_partially_directed_graph [first_edits_article, second_edits_article]))
   = [\<lparr>personA = ''ann'', personB = ''bob'',
       issues_A_ed_B_auth = [''J :: V1''], issues_B_ed_A_auth = [''J :: V2'']\<rparr>,
      \<lparr>personA = ''bob'', personB = ''ann'',
       issues_A_ed_B_auth = [''J :: V2''], issues_B_ed_A_auth = [''J :: V1'']\<rparr>]
   \<and> length (filter (\<lambda>r. {personA r, personB r} = {''ann'', ''bob''})
        (reciprocal (detect_suspicious_patterns
           (build_partially_directed_graph [first_edits_article, second_edits_article])))) = 2"
proof -
  let ?G = "build_partially_directed_graph [first_edits_article, second_edits_article]"
  have ne: "''ann'' \<noteq> ''bob''" by simp
  have ab: "edge_at ?G (''ann'', ''bob'')
      = Some \<lparr>relationship = ''editor_to_author'', issues = [''J :: V1''], titles = [''T6'']\<rparr>"
    by code_simp
  have ba: "edge_at ?G (''bob'', ''ann'')
      = Some \<lparr>relationship = ''editor_to_author'', issues = [''J :: V2''], titles = [''T7'']\<rparr>"
    by code_simp
  have all: "reciprocal (detect_suspicious_patterns ?G)
   = [\<lparr>personA = ''ann'', personB = ''bob'',
       issues_A_ed_B_auth = [''J :: V1''], issues_B_ed_A_auth = [''J :: V2'']\<rparr>,
      \<lparr>personA = ''bob'', personB = ''ann'',
       issues_A_ed_B_auth = [''J :: V2''], issues_B_ed_A_auth = [''J :: V1'']\<rparr>]"
    by code_simp
  have "length (filter (\<lambda>r. {personA r, personB r} = {''ann'', ''bob''})
        (reciprocal (detect_suspicious_patterns ?G))) = 2"
    using reciprocal_both_orderings [OF well_formed_build ne ab _ _ ba] by (simp add: str_in_facts)
  with all show ?thesis by (intro conjI)
qed

section \<open>Scoring (claim C5)\<close>

lemma map_of_add_score:
  "map_of (add_score q n m) p = (if p = q then Some (get_or 0 (map_of m q) + n) else map_of m p)"
  by (simp add: add_score_def map_of_setdefault_then)

lemma distinct_add_score: "distinct (map fst m) \<Longrightarrow> distinct (map fst (add_score q n m))"
  by (simp add: add_score_def distinct_setdefault_then)

lemma fold_self_scores:
  "map_of (fold (\<lambda>e m. add_score (person e) 3 m) es m) p
     = (if filter (\<lambda>e. person e = p) es = [] then map_of m p
        else Some (get_or 0 (map_of m p) + 3 * int (length (filter (\<lambda>e. person e = p) es))))"
proof (induction es arbitrary: m)
  case Nil
  show ?case by simp
next
  case (Cons e es)
  show ?case
    by (simp add: Cons.IH map_of_add_score get_or_def)
qed

lemma fold_recip_scores:
  "map_of (fold (\<lambda>r m. add_score (personB r) 2 (add_score (personA r) 2 m)) rs m) p
     = (if filter (\<lambda>r. personA r = p) rs = [] \<and> filter (\<lambda>r. personB r = p) rs = []
        then map_of m p
        else Some (get_or 0 (map_of m p)
               + 2 * int (length (filter (\<lambda>r. personA r = p) rs)
                        + length (filter (\<lambda>r. personB r = p) rs))))"
proof (induction rs arbitrary: m)
  case Nil
  show ?case by simp
next
  case (Cons r rs)
  show ?case
    by (auto simp add: Cons.IH map_of_add_score get_or_def)
qed

lemma distinct_score_suspicion: "distinct (map fst (score_suspicion s))"
proof -
  have 1: "distinct (map fst m) \<Longrightarrow>
      distinct (map fst (fold (\<lambda>e m. add_score (person e) 3 m) es m))" for es m
    by (induction es arbitrary: m) (simp_all add: distinct_add_score)
  have 2: "distinct (map fst m) \<Longrightarrow>
      distinct (map fst (fold (\<lambda>r m. add_score (personB r) 2 (add_score (personA r) 2 m)) rs m))"
    for rs m
    by (induction rs arbitrary: m) (simp_all add: distinct_add_score)
  show ?thesis
    unfolding score_suspicion_def Let_def by (intro 1 2) simp
qed

lemma map_of_score_suspicion:
  "map_of (score_suspicion s) p
     = (if self_count s p + recip_roles s p = 0 then None
        else Some (3 * int (self_count s p) + 2 * int (recip_roles s p)))"
  unfolding score_suspicion_def Let_def fold_recip_scores fold_self_scores
    self_count_def recip_roles_def
  by (simp add: get_or_def)


text \<open>
  Claim C5, as it holds. The score of a person is three times the number of self-overlap
  records naming the person plus two for every time a reciprocal record names the person
  as \<^verbatim>\<open>personA\<close> and two for every time one names the person as \<^verbatim>\<open>personB\<close>; a person
  named by no record has no entry in the mapping, and nobody has two entries. A person
  with one self-overlap record who is named once by the reciprocal records scores 5.
\<close>

theorem score_is_additive:
  "map_of (score_suspicion s) p
     = (if self_count s p + recip_roles s p = 0 then None
        else Some (3 * int (self_count s p) + 2 * int (recip_roles s p)))
   \<and> distinct (map fst (score_suspicion s))
   \<and> (self_count s p = 1 \<and> recip_roles s p = 1 \<longrightarrow> map_of (score_suspicion s) p = Some 5)"
  by (simp add: map_of_score_suspicion distinct_score_suspicion)

theorem score_is_additive_witness:
  "self_count \<lparr>self_overlap = [\<lparr>person = ''ann'', issue = ''J :: V1''\<rparr>],
               reciprocal = [\<lparr>personA = ''bob'', personB = ''ann'',
                 issues_A_ed_B_auth = [''J :: V2''], issues_B_ed_A_auth = [''J :: V1'']\<rparr>]\<rparr> ''ann'' = 1
   \<and> recip_roles \<lparr>self_overlap = [\<lparr>person = ''ann'', issue = ''J :: V1''\<rparr>],
               reciprocal = [\<lparr>personA = ''bob'', personB = ''ann'',
                 issues_A_ed_B_auth = [''J :: V2''], issues_B_ed_A_auth = [''J :: V1'']\<rparr>]\<rparr> ''ann'' = 1
   \<and> map_of (score_suspicion \<lparr>self_overlap = [\<lparr>person = ''ann'', issue = ''J :: V1''\<rparr>],
               reciprocal = [\<lparr>personA = ''bob'', personB = ''ann'',
                 issues_A_ed_B_auth = [''J :: V2''], issues_B_ed_A_auth = [''J :: V1'']\<rparr>]\<rparr>) ''ann''
       = Some 5"
proof -
  let ?s = "\<lparr>self_overlap = [\<lparr>person = ''ann'', issue = ''J :: V1''\<rparr>],
               reciprocal = [\<lparr>personA = ''bob'', personB = ''ann'',
                 issues_A_ed_B_auth = [''J :: V2''], issues_B_ed_A_auth = [''J :: V1'']\<rparr>]\<rparr>"
  have 1: "self_count ?s ''ann'' = 1" by (simp add: self_count_def)
  have 2: "recip_roles ?s ''ann'' = 1" by (simp add: recip_roles_def)
  from score_is_additive [of ?s "''ann''"] 1 2
  have "map_of (score_suspicion ?s) ''ann'' = Some 5" by blast
  with 1 2 show ?thesis by (intro conjI)
qed

text \<open>
  Claim C5 as stated gives 5 to a person with exactly one self-overlap record and one
  reciprocal record. One record in which the same normalized name edits and authors
  yields exactly one self-overlap record and exactly one reciprocal record for that person,
  the latter naming the person in both fields: the score is 3 + 2 + 2.
\<close>

theorem score_counterexample:
  "self_overlap (detect_suspicious_patterns (build_partially_directed_graph [self_edited_article]))
     = [\<lparr>person = ''ed'', issue = ''J :: S5''\<rparr>]
   \<and> reciprocal (detect_suspicious_patterns (build_partially_directed_graph [self_edited_article]))
     = [\<lparr>personA = ''ed'', personB = ''ed'',
         issues_A_ed_B_auth = [''J :: S5''], issues_B_ed_A_auth = [''J :: S5'']\<rparr>]
   \<and> score_suspicion
        (detect_suspicious_patterns (build_partially_directed_graph [self_edited_article]))
     = [(''ed'', 7)]"
  by code_simp

section \<open>Self-loops of an editor who authors (claim C9)\<close>

lemma length_filter_split:
  "length (filter P xs)
     = length (filter (\<lambda>x. P x \<and> Q x) xs) + length (filter (\<lambda>x. \<not> (P x \<and> Q x) \<and> P x) xs)"
  "length (filter Q xs)
     = length (filter (\<lambda>x. P x \<and> Q x) xs) + length (filter (\<lambda>x. \<not> (P x \<and> Q x) \<and> Q x) xs)"
  by (induction xs) auto

lemma recip_roles_without_self_pair:
  assumes "filter (\<lambda>r. personA r = u \<and> personB r = u) (reciprocal S) = [rec]"
  shows "recip_roles S u
     = recip_roles \<lparr>self_overlap = self_overlap S,
         reciprocal = filter (\<lambda>r. \<not> (personA r = u \<and> personB r = u)) (reciprocal S)\<rparr> u + 2"
proof -
  let ?R = "reciprocal S"
  let ?both = "\<lambda>r. personA r = u \<and> personB r = u"
  have one: "length (filter ?both ?R) = 1"
    by (simp only: assms) simp
  have a: "length (filter (\<lambda>r. personA r = u) ?R)
      = length (filter ?both ?R) + length (filter (\<lambda>r. \<not> ?both r \<and> personA r = u) ?R)"
    by (rule length_filter_split(1))
  have b: "length (filter (\<lambda>r. personB r = u) ?R)
      = length (filter ?both ?R) + length (filter (\<lambda>r. \<not> ?both r \<and> personB r = u) ?R)"
    by (rule length_filter_split(2))
  show ?thesis
    unfolding recip_roles_def by (simp add: a b one)
qed

text \<open>
  Claim C9. The built graph has an edge \<open>u \<rightarrow> u\<close> with \<^verbatim>\<open>editor_to_author\<close> in its label
  exactly when some record lists \<open>u\<close> (normalized) among its editors and among its authors.
  Then the detector emits one reciprocal record with \<^verbatim>\<open>personA\<close> = \<^verbatim>\<open>personB\<close> = \<open>u\<close>, whose
  two venue lists are both the \<^verbatim>\<open>issues\<close> list of that edge, and this single record is
  worth 4 to \<open>u\<close>: for every score mapping, the body of the scoring loop run on this record
  raises the score of \<open>u\<close> by 4, and the score of \<open>u\<close> over the detector's output is 4 more
  than over the same output without this record.
\<close>

theorem self_loop_scores_four:
  "(has_label ''editor_to_author'' (build_partially_directed_graph articles) (u, u)
      \<longleftrightarrow> (\<exists>r \<in> set articles. u \<in> set (editors_of r) \<and> u \<in> set (authors_of r)))
   \<and> (has_label ''editor_to_author'' (build_partially_directed_graph articles) (u, u) \<longrightarrow>
        (\<exists>d. edge_at (build_partially_directed_graph articles) (u, u) = Some d
           \<and> filter (\<lambda>r. personA r = u \<and> personB r = u)
                (reciprocal (detect_suspicious_patterns (build_partially_directed_graph articles)))
              = [\<lparr>personA = u, personB = u,
                  issues_A_ed_B_auth = issues d, issues_B_ed_A_auth = issues d\<rparr>]
           \<and> (\<forall>m. map_of (add_score u 2 (add_score u 2 m)) u = Some (get_or 0 (map_of m u) + 4))
           \<and> map_of (score_suspicion
                (detect_suspicious_patterns (build_partially_directed_graph articles))) u
              = Some (get_or 0 (map_of (score_suspicion
                   \<lparr>self_overlap = self_overlap
                      (detect_suspicious_patterns (build_partially_directed_graph articles)),
                    reciprocal = filter (\<lambda>r. \<not> (personA r = u \<and> personB r = u))
                      (reciprocal (detect_suspicious_patterns
                         (build_partially_directed_graph articles)))\<rparr>) u) + 4)))"
proof (intro conjI impI)
  let ?G = "build_partially_directed_graph articles"
  show "has_label ''editor_to_author'' ?G (u, u)
      \<longleftrightarrow> (\<exists>r \<in> set articles. u \<in> set (editors_of r) \<and> u \<in> set (authors_of r))"
    by (simp only: has_label_build(1) ed_contributions_pos_iff)
next
  let ?G = "build_partially_directed_graph articles"
  let ?S = "detect_suspicious_patterns ?G"
  let ?S' = "\<lparr>self_overlap = self_overlap ?S,
     reciprocal = filter (\<lambda>r. \<not> (personA r = u \<and> personB r = u)) (reciprocal ?S)\<rparr>"
  assume h: "has_label ''editor_to_author'' ?G (u, u)"
  then obtain d where d: "edge_at ?G (u, u) = Some d"
    and l: "str_in ''editor_to_author'' (relationship d)"
    by (auto simp: has_label_def split: option.splits)
  have pos: "0 < ed_contributions articles u u"
    using h by (simp only: has_label_build(1))
  have ne: "issues d \<noteq> []"
    using edge_at_build_lengths(1) [OF d] pos by auto
  have m: "map_of (ed_au_map ?G) (u, u) = Some (issues d)"
    by (simp add: map_of_ed_au_map [OF well_formed_build] d l ne)
  have R: "reciprocal ?S = suspicious_recip (ed_au_map ?G)"
    by (simp add: detect_suspicious_patterns_def)
  have rec: "filter (\<lambda>r. personA r = u \<and> personB r = u) (reciprocal ?S)
      = [\<lparr>personA = u, personB = u, issues_A_ed_B_auth = issues d, issues_B_ed_A_auth = issues d\<rparr>]"
    unfolding R filter_suspicious_recip [OF well_formed_build] by (simp add: m)
  have step: "map_of (add_score u 2 (add_score u 2 m)) u = Some (get_or 0 (map_of m u) + 4)" for m
    by (simp add: map_of_add_score get_or_def)
  have rr: "recip_roles ?S u = recip_roles ?S' u + 2"
    by (rule recip_roles_without_self_pair [OF rec])
  have sc: "self_count ?S' u = self_count ?S u"
    by (simp add: self_count_def)
  have score: "map_of (score_suspicion ?S) u = Some (get_or 0 (map_of (score_suspicion ?S') u) + 4)"
    unfolding map_of_score_suspicion [of ?S] map_of_score_suspicion [of ?S'] sc rr
    by (simp add: get_or_def)
  show "\<exists>d. edge_at ?G (u, u) = Some d
           \<and> filter (\<lambda>r. personA r = u \<and> personB r = u) (reciprocal ?S)
              = [\<lparr>personA = u, personB = u,
                  issues_A_ed_B_auth = issues d, issues_B_ed_A_auth = issues d\<rparr>]
           \<and> (\<forall>m. map_of (add_score u 2 (add_score u 2 m)) u = Some (get_or 0 (map_of m u) + 4))
           \<and> map_of (score_suspicion ?S) u
              = Some (get_or 0 (map_of (score_suspicion ?S') u) + 4)"
  proof (intro exI [of _ d] conjI allI)
    show "edge_at ?G (u, u) = Some d" by (rule d)
    show "filter (\<lambda>r. personA r = u \<and> personB r = u) (reciprocal ?S)
      = [\<lparr>personA = u, personB = u, issues_A_ed_B_auth = issues d, issues_B_ed_A_auth = issues d\<rparr>]"
      by (rule rec)
    show "map_of (add_score u 2 (add_score u 2 m)) u = Some (get_or 0 (map_of m u) + 4)" for m
      by (rule step)
    show "map_of (score_suspicion ?S) u = Some (get_or 0 (map_of (score_suspicion ?S') u) + 4)"
      by (rule score)
  qed
qed

theorem self_loop_scores_four_witness:
  "has_label ''editor_to_author'' (build_partially_directed_graph [self_edited_article])
     (''ed'', ''ed'')
   \<and> filter (\<lambda>r. personA r = ''ed'' \<and> personB r = ''ed'')
        (reciprocal (detect_suspicious_patterns
           (build_partially_directed_graph [self_edited_article])))
      = [\<lparr>personA = ''ed'', personB = ''ed'',
          issues_A_ed_B_auth = [''J :: S5''], issues_B_ed_A_auth = [''J :: S5'']\<rparr>]
   \<and> map_of (score_suspicion (detect_suspicious_patterns
        (build_partially_directed_graph [self_edited_article]))) ''ed'' = Some (3 + 4)"
proof -
  let ?G = "build_partially_directed_graph [self_edited_article]"
  let ?S = "detect_suspicious_patterns ?G"
  have h: "has_label ''editor_to_author'' ?G (''ed'', ''ed'')"
    by code_simp
  have e: "edge_at ?G (''ed'', ''ed'')
      = Some \<lparr>relationship = ''editor_to_author'', issues = [''J :: S5''], titles = [''T5'']\<rparr>"
    by code_simp
  have rest: "get_or 0 (map_of (score_suspicion
       \<lparr>self_overlap = self_overlap ?S,
        reciprocal = filter (\<lambda>r. \<not> (personA r = ''ed'' \<and> personB r = ''ed''))
          (reciprocal ?S)\<rparr>) ''ed'') = 3"
    by code_simp
  from self_loop_scores_four [of "[self_edited_article]" "''ed''"]
  have "has_label ''editor_to_author'' ?G (''ed'', ''ed'') \<longrightarrow>
        (\<exists>d. edge_at ?G (''ed'', ''ed'') = Some d
           \<and> filter (\<lambda>r. personA r = ''ed'' \<and> personB r = ''ed'') (reciprocal ?S)
              = [\<lparr>personA = ''ed'', personB = ''ed'',
                  issues_A_ed_B_auth = issues d, issues_B_ed_A_auth = issues d\<rparr>]
           \<and> (\<forall>m. map_of (add_score ''ed'' 2 (add_score ''ed'' 2 m)) ''ed''
                  = Some (get_or 0 (map_of m ''ed'') + 4))
           \<and> map_of (score_suspicion ?S) ''ed''
              = Some (get_or 0 (map_of (score_suspicion
                   \<lparr>self_overlap = self_overlap ?S,
                    reciprocal = filter (\<lambda>r. \<not> (personA r = ''ed'' \<and> personB r = ''ed''))
                      (reciprocal ?S)\<rparr>) ''ed'') + 4))"
    by (elim conjE)
  from this [THEN mp, OF h] obtain d
    where d: "edge_at ?G (''ed'', ''ed'') = Some d"
      and r: "filter (\<lambda>r. personA r = ''ed'' \<and> personB r = ''ed'') (reciprocal ?S)
              = [\<lparr>personA = ''ed'', personB = ''ed'',
                  issues_A_ed_B_auth = issues d, issues_B_ed_A_auth = issues d\<rparr>]"
      and s: "map_of (score_suspicion ?S) ''ed''
              = Some (get_or 0 (map_of (score_suspicion
                   \<lparr>self_overlap = self_overlap ?S,
                    reciprocal = filter (\<lambda>r. \<not> (personA r = ''ed'' \<and> personB r = ''ed''))
                      (reciprocal ?S)\<rparr>) ''ed'') + 4)"
    by (elim conjE exE)
  have i: "issues d = [''J :: S5'']"
    using d unfolding e by auto
  have r': "filter (\<lambda>r. personA r = ''ed'' \<and> personB r = ''ed'') (reciprocal ?S)
      = [\<lparr>personA = ''ed'', personB = ''ed'',
          issues_A_ed_B_auth = [''J :: S5''], issues_B_ed_A_auth = [''J :: S5'']\<rparr>]"
    using r unfolding i .
  have s': "map_of (score_suspicion ?S) ''ed'' = Some (3 + 4)"
    using s unfolding rest .
  from h r' s' show ?thesis by (intro conjI)
qed

section \<open>The shared venue list of an edge (claim C10)\<close>









section \<open>Breadth-first search\<close>








section \<open>Connected components\<close>








section \<open>Co-author clusters (claim C6)\<close>

















end
